theory Spec2Isabelle
  imports Complex_Main
begin

section \<open>Data model\<close>

text \<open>
  The catalog entry of all four scripts (\<^verbatim>\<open>interface UrlEntry\<close>): display name,
  address and category tag, all strings.
\<close>

record UrlEntry =
  name :: string
  url :: string
  type :: string

section \<open>Deduplication\<close>

text \<open>
  \<^verbatim>\<open>listUpUrls\<close> and \<^verbatim>\<open>fastCheck\<close> remove duplicates with a filter over a growing
  set of addresses already seen:
  \<^verbatim>\<open>
    const seen = new Set();
    const uniqueUrls = urls.filter(item => {
        if (seen.has(item.url)) return false;
        seen.add(item.url);
        return true;
    });
  \<close>
  The set is threaded through the traversal as an explicit argument.
\<close>

fun filter_seen :: "string set \<Rightarrow> UrlEntry list \<Rightarrow> UrlEntry list" where
  "filter_seen seen [] = []"
| "filter_seen seen (item # rest) =
     (if url item \<in> seen then filter_seen seen rest
      else item # filter_seen (insert (url item) seen) rest)"

definition uniqueUrls_filter :: "UrlEntry list \<Rightarrow> UrlEntry list" where
  "uniqueUrls_filter urls = filter_seen {} urls"

text \<open>
  \<^verbatim>\<open>runAdvancedPingTest\<close> removes duplicates through a JavaScript \<^verbatim>\<open>Map\<close>:
  \<^verbatim>\<open>
    const uniqueUrls = Array.from(
        new Map(urls.map((item) => [item.url, item])).values()
    );
  \<close>
  A \<^verbatim>\<open>Map\<close> iterates in the order in which its keys were first inserted, and
  \<^verbatim>\<open>set\<close> on a key that is present replaces the value and leaves the position.
  The map is an association list in insertion order; the constructor inserts the pairs
  from left to right.
\<close>

fun map_set :: "'k \<Rightarrow> 'v \<Rightarrow> ('k \<times> 'v) list \<Rightarrow> ('k \<times> 'v) list" where
  "map_set k v [] = [(k, v)]"
| "map_set k v (p # m) =
     (if fst p = k then (fst p, v) # m else p # map_set k v m)"

definition new_Map :: "('k \<times> 'v) list \<Rightarrow> ('k \<times> 'v) list" where
  "new_Map pairs = fold (\<lambda>p m. map_set (fst p) (snd p) m) pairs []"

definition map_values :: "('k \<times> 'v) list \<Rightarrow> 'v list" where
  "map_values m = map snd m"

definition uniqueUrls_map :: "UrlEntry list \<Rightarrow> UrlEntry list" where
  "uniqueUrls_map urls = map_values (new_Map (map (\<lambda>item. (url item, item)) urls))"

section \<open>Numbers, outcomes of external calls\<close>

text \<open>
  A JavaScript number is a double. Finite values are taken as exact reals here (rounding
  of the last bit is not modelled); the values that are not finite are kept, because a
  division by zero produces one of them instead of raising: \<^verbatim>\<open>0 / 0\<close> is \<^verbatim>\<open>NaN\<close>
  and \<^verbatim>\<open>x / 0\<close> is an infinity of the sign of \<^verbatim>\<open>x\<close>.
\<close>

datatype jsnum = Num real | NaN | PosInf | NegInf

definition js_div :: "real \<Rightarrow> real \<Rightarrow> jsnum" where
  "js_div a b =
     (if b = 0 then (if a = 0 then NaN else if 0 < a then PosInf else NegInf)
      else Num (a / b))"

text \<open>Multiplication by a positive finite constant (\<^verbatim>\<open>* 100\<close>).\<close>

definition js_mul :: "jsnum \<Rightarrow> real \<Rightarrow> jsnum" where
  "js_mul x c = (case x of Num a \<Rightarrow> Num (a * c) | NaN \<Rightarrow> NaN | PosInf \<Rightarrow> PosInf | NegInf \<Rightarrow> NegInf)"

text \<open>
  A call that may throw returns \<open>Inl\<close> of the message of what it threw
  (\<^verbatim>\<open>error instanceof Error ? error.message : String(error)\<close>) or \<open>Inr\<close> of its value.
  The network, the resolver, the URL parser and the clock are outside the program; they
  are fields of a record of functions, and every statement below holds for all of them.
\<close>

record URL =
  url_hostname :: string
  url_port :: string
  url_protocol :: string

record ProbeResponse =
  resp_alive :: bool
  resp_time :: "real option"  \<comment> \<open>\<open>None\<close> is the string \<^verbatim>\<open>'unknown'\<close>\<close>

record FetchResponse =
  ok :: bool
  http_status :: nat

record world =
  new_URL :: "string \<Rightarrow> string + URL"
  dnsLookup :: "string \<Rightarrow> string + string"
  dns_elapsed :: "string \<Rightarrow> real"
  probe :: "string \<Rightarrow> real \<Rightarrow> nat \<Rightarrow> string + ProbeResponse"
    \<comment> \<open>\<^verbatim>\<open>ping.promise.probe\<close>: host, timeout in seconds, number of the call for this host\<close>
  probe_elapsed :: "string \<Rightarrow> nat \<Rightarrow> real"
  fetch :: "string \<Rightarrow> string \<Rightarrow> string + FetchResponse"  \<comment> \<open>method, address\<close>
  elapsed :: "string \<Rightarrow> real"  \<comment> \<open>\<^verbatim>\<open>Date.now() - startTime\<close> when the probe of an address returns\<close>
  run_elapsed :: real
  now_iso :: string
  settled_at :: "string \<Rightarrow> real"
    \<comment> \<open>the instant, counted from the start of its batch, at which the last operation that the probe of an address awaits completes\<close>
  percent1 :: "nat \<Rightarrow> nat \<Rightarrow> real"
    \<comment> \<open>the double that \<^verbatim>\<open>parseFloat(((a / b) * 100).toFixed(1))\<close> is, for counts \<open>a\<close> and \<open>b > 0\<close>\<close>

section \<open>The multi-attempt prober (list.ts)\<close>

datatype status = UP | DOWN | PARTIAL

record PingStatistics =
  stat_min :: real
  stat_max :: real
  avg :: real
  stddev :: real
  loss :: jsnum

record DnsInfo =
  ip :: "string option"
  dns_hostname :: string
  resolveTime :: real
  dns_error :: "string option"

record RawPing =
  alive :: bool
  time :: real
  attempt :: nat

record PingResult =
  res_url :: string
  res_name :: string
  res_type :: string
  res_status :: status
  res_attempts :: nat
  successfulPings :: nat
  statistics :: PingStatistics
  dnsInfo :: DnsInfo
  port :: "nat option"
  isHttps :: bool
  totalTime :: real
  timestamp :: string
  error :: "string option"
  rawPingResults :: "RawPing list"

record PingConfig =
  attempts :: nat
  timeout :: real
  interval :: real
  batchSize :: nat
  enableDnsLookup :: bool
  enablePortCheck :: bool

definition DEFAULT_CONFIG :: PingConfig where
  "DEFAULT_CONFIG = \<lparr>attempts = 5, timeout = 5000, interval = 500, batchSize = 8,
     enableDnsLookup = True, enablePortCheck = True\<rparr>"

text \<open>
  The regular expression \<^verbatim>\<open>^https?:\/\/([^:/]+)\<close>: the scheme, then the longest
  non-empty run of characters other than \<^verbatim>\<open>:\<close> and \<^verbatim>\<open>/\<close>. The result is the run and
  what follows it.
\<close>

definition match_scheme_host :: "string \<Rightarrow> (string \<times> string) option" where
  "match_scheme_host s =
     (let rest = (if take 8 s = ''https://'' then Some (drop 8 s)
                  else if take 7 s = ''http://'' then Some (drop 7 s) else None)
      in case rest of None \<Rightarrow> None
         | Some r \<Rightarrow>
             (let host = takeWhile (\<lambda>c. c \<noteq> CHR '':'' \<and> c \<noteq> CHR ''/'') r
              in if host = [] then None
                 else Some (host, dropWhile (\<lambda>c. c \<noteq> CHR '':'' \<and> c \<noteq> CHR ''/'') r)))"

definition is_digit :: "char \<Rightarrow> bool" where
  "is_digit c = (c \<in> set ''0123456789'')"

text \<open>\<^verbatim>\<open>parseInt\<close> on a string of decimal digits.\<close>

definition parseInt :: "string \<Rightarrow> nat" where
  "parseInt ds = fold (\<lambda>c n. 10 * n + (of_char c - 48)) ds 0"

text \<open>
  The whole fallback expression \<^verbatim>\<open>^https?:\/\/([^:/]+)(?::(\d+))?\<close>: group 1 and,
  when a colon and at least one digit follow, group 2.
\<close>

definition fallback_match :: "string \<Rightarrow> (string \<times> string option) option" where
  "fallback_match s =
     (case match_scheme_host s of None \<Rightarrow> None
      | Some (host, after) \<Rightarrow>
          Some (host,
            case after of [] \<Rightarrow> None
            | c # cs \<Rightarrow>
                if c = CHR '':'' \<and> takeWhile is_digit cs \<noteq> [] then Some (takeWhile is_digit cs)
                else None))"

record HostPort =
  hp_hostname :: string
  hp_port :: "nat option"
  hp_isHttps :: bool

definition extractHostAndPort :: "world \<Rightarrow> string \<Rightarrow> string + HostPort" where
  "extractHostAndPort w urlString =
     (case new_URL w urlString of
        Inr u \<Rightarrow>
          Inr \<lparr>hp_hostname = url_hostname u,
               hp_port = Some (if url_port u \<noteq> [] then parseInt (url_port u)
                               else if url_protocol u = ''https:'' then 443 else 80),
               hp_isHttps = (url_protocol u = ''https:'')\<rparr>
      | Inl _ \<Rightarrow>
          (case fallback_match urlString of
             Some (host, port_group) \<Rightarrow>
               Inr \<lparr>hp_hostname = host,
                    hp_port = Some (case port_group of Some ds \<Rightarrow> parseInt ds
                                    | None \<Rightarrow> if take 5 urlString = ''https'' then 443 else 80),
                    hp_isHttps = (take 5 urlString = ''https'')\<rparr>
           | None \<Rightarrow> Inl ''Invalid URL format''))"

definition performDnsLookup :: "world \<Rightarrow> string \<Rightarrow> DnsInfo" where
  "performDnsLookup w hostname =
     (case dnsLookup w hostname of
        Inr address \<Rightarrow>
          \<lparr>ip = Some address, dns_hostname = hostname,
           resolveTime = dns_elapsed w hostname, dns_error = None\<rparr>
      | Inl msg \<Rightarrow>
          \<lparr>ip = None, dns_hostname = hostname,
           resolveTime = dns_elapsed w hostname, dns_error = Some msg\<rparr>)"

definition calculateStatistics :: "real list \<Rightarrow> PingStatistics" where
  "calculateStatistics ts =
     (if length ts = 0
      then \<lparr>stat_min = 0, stat_max = 0, avg = 0, stddev = 0, loss = Num 100\<rparr>
      else
        let mn = fold min (tl ts) (hd ts);
            mx = fold max (tl ts) (hd ts);
            av = fold (\<lambda>time sum. sum + time) ts 0 / real (length ts);
            variance = fold (\<lambda>time sum. sum + (time - av) ^ 2) ts 0 / real (length ts);
            sd = sqrt variance
        in \<lparr>stat_min = mn, stat_max = mx, avg = av, stddev = sd, loss = Num 0\<rparr>)"

text \<open>
  One pass of the attempt loop, on the pair of \<^verbatim>\<open>rawPingResults\<close> and
  \<^verbatim>\<open>successfulTimes\<close>. A probe that throws is caught inside the loop and recorded as
  not alive with the configured timeout as its time.
\<close>

definition attempt_step ::
  "world \<Rightarrow> string \<Rightarrow> PingConfig \<Rightarrow> nat \<Rightarrow> RawPing list \<times> real list \<Rightarrow> RawPing list \<times> real list" where
  "attempt_step w hostname config i st =
     (case probe w hostname (timeout config / 1000) i of
        Inr result \<Rightarrow>
          (let pingTime = (case resp_time result of None \<Rightarrow> probe_elapsed w hostname i
                           | Some t \<Rightarrow> t)
           in (fst st @ [\<lparr>alive = resp_alive result, time = pingTime, attempt = i + 1\<rparr>],
               if resp_alive result then snd st @ [pingTime] else snd st))
      | Inl _ \<Rightarrow>
          (fst st @ [\<lparr>alive = False, time = timeout config, attempt = i + 1\<rparr>], snd st))"

definition ping_attempts :: "world \<Rightarrow> string \<Rightarrow> PingConfig \<Rightarrow> RawPing list \<times> real list" where
  "ping_attempts w hostname config =
     fold (attempt_step w hostname config) [0..<attempts config] ([], [])"

text \<open>The body of the \<^verbatim>\<open>try\<close> block of \<^verbatim>\<open>advancedPingUrl\<close>.\<close>

definition advancedPingUrl_try :: "world \<Rightarrow> UrlEntry \<Rightarrow> PingConfig \<Rightarrow> string + PingResult" where
  "advancedPingUrl_try w entry config =
     (case extractHostAndPort w (url entry) of
        Inl msg \<Rightarrow> Inl msg
      | Inr hp \<Rightarrow>
          (let hostname = hp_hostname hp;
               dns = (if enableDnsLookup config then performDnsLookup w hostname
                      else \<lparr>ip = None, dns_hostname = hostname, resolveTime = 0,
                            dns_error = None\<rparr>);
               loop = ping_attempts w hostname config;
               successfulTimes = snd loop;
               successful = length successfulTimes;
               stats = (calculateStatistics successfulTimes)
                 \<lparr>loss := js_mul (js_div (real (attempts config) - real successful)
                                      (real (attempts config))) 100\<rparr>;
               st = (if successful = attempts config then UP
                     else if successful > 0 then PARTIAL else DOWN)
           in Inr \<lparr>res_url = url entry, res_name = name entry, res_type = type entry,
                   res_status = st, res_attempts = attempts config,
                   successfulPings = successful, statistics = stats, dnsInfo = dns,
                   port = hp_port hp, isHttps = hp_isHttps hp,
                   totalTime = elapsed w (url entry), timestamp = now_iso w,
                   error = None, rawPingResults = fst loop\<rparr>))"

text \<open>
  \<^verbatim>\<open>advancedPingUrl\<close>: what the \<^verbatim>\<open>try\<close> block throws is caught and turned into a
  result. The function returns \<open>Inr\<close> of its result; \<open>Inl\<close> would be an error that
  leaves it.
\<close>

definition advancedPingUrl :: "world \<Rightarrow> UrlEntry \<Rightarrow> PingConfig \<Rightarrow> string + PingResult" where
  "advancedPingUrl w entry config =
     (case advancedPingUrl_try w entry config of
        Inr r \<Rightarrow> Inr r
      | Inl msg \<Rightarrow>
          Inr \<lparr>res_url = url entry, res_name = name entry, res_type = type entry,
               res_status = DOWN, res_attempts = attempts config, successfulPings = 0,
               statistics = \<lparr>stat_min = 0, stat_max = 0, avg = 0, stddev = 0, loss = Num 100\<rparr>,
               dnsInfo = \<lparr>ip = None, dns_hostname = url entry, resolveTime = 0,
                          dns_error = None\<rparr>,
               port = None, isHttps = False,
               totalTime = elapsed w (url entry), timestamp = now_iso w,
               error = Some msg, rawPingResults = []\<rparr>)"

section \<open>Sorting, joining promises\<close>

text \<open>
  \<^verbatim>\<open>Array.prototype.sort\<close> with a comparator is a stable sort: an element goes before
  another when the comparator is negative, and elements that compare equal keep their
  order. Insertion from the right into the sorted rest, before the first element that is
  not smaller, is such a sort.
\<close>

fun insert_sorted :: "('a \<Rightarrow> 'a \<Rightarrow> real) \<Rightarrow> 'a \<Rightarrow> 'a list \<Rightarrow> 'a list" where
  "insert_sorted cmp x [] = [x]"
| "insert_sorted cmp x (y # ys) =
     (if cmp x y \<le> 0 then x # y # ys else y # insert_sorted cmp x ys)"

definition js_sort :: "('a \<Rightarrow> 'a \<Rightarrow> real) \<Rightarrow> 'a list \<Rightarrow> 'a list" where
  "js_sort cmp xs = foldr (insert_sorted cmp) xs []"

text \<open>
  \<^verbatim>\<open>await Promise.all(ps)\<close>: the values in the order of the promises, or the error of
  a promise that rejects (the leftmost one here).
\<close>

fun promise_all :: "(string + 'a) list \<Rightarrow> string + 'a list" where
  "promise_all [] = Inr []"
| "promise_all (p # ps) =
     (case p of Inl e \<Rightarrow> Inl e
      | Inr v \<Rightarrow> (case promise_all ps of Inl e \<Rightarrow> Inl e | Inr vs \<Rightarrow> Inr (v # vs)))"

section \<open>The single-attempt probers\<close>

text \<open>\<^verbatim>\<open>extractHostname\<close>, the same in \<^verbatim>\<open>listUpUrls\<close>'s file and in \<^verbatim>\<open>fastCheck\<close>'s.\<close>

definition extractHostname :: "world \<Rightarrow> string \<Rightarrow> string" where
  "extractHostname w urlString =
     (case new_URL w urlString of
        Inr u \<Rightarrow> url_hostname u
      | Inl _ \<Rightarrow>
          (case match_scheme_host urlString of Some (host, _) \<Rightarrow> host | None \<Rightarrow> urlString))"

record CheckResult =
  c_url :: string
  c_name :: string
  isUp :: bool

definition checkUrl :: "world \<Rightarrow> UrlEntry \<Rightarrow> string + CheckResult" where
  "checkUrl w entry =
     (let hostname = extractHostname w (url entry)
      in case probe w hostname 2 0 of
           Inr result \<Rightarrow> Inr \<lparr>c_url = url entry, c_name = name entry, isUp = resp_alive result\<rparr>
         | Inl _ \<Rightarrow> Inr \<lparr>c_url = url entry, c_name = name entry, isUp = False\<rparr>)"

record SimpleResult =
  s_url :: string
  s_name :: string
  s_status :: status
  responseTime :: real

definition quickPing :: "world \<Rightarrow> UrlEntry \<Rightarrow> string + SimpleResult" where
  "quickPing w entry =
     (let hostname = extractHostname w (url entry)
      in case probe w hostname 2 0 of
           Inr result \<Rightarrow>
             Inr \<lparr>s_url = url entry, s_name = name entry,
                  s_status = (if resp_alive result then UP else DOWN),
                  responseTime = elapsed w (url entry)\<rparr>
         | Inl _ \<Rightarrow>
             Inr \<lparr>s_url = url entry, s_name = name entry, s_status = DOWN,
                  responseTime = elapsed w (url entry)\<rparr>)"



section \<open>Aggregation of the single-attempt runs\<close>

text \<open>
  The success rate of both summaries is
  \<^verbatim>\<open>parseFloat(((up.length / all.length) * 100).toFixed(1))\<close>, with no test of the
  denominator. When the denominator is zero the quotient is \<^verbatim>\<open>NaN\<close> or an infinity,
  and the multiplication, \<^verbatim>\<open>toFixed\<close> and \<^verbatim>\<open>parseFloat\<close> hand it on as it is. When
  the denominator is positive the value is a finite double. Which one is decided by the
  rounding of the division, of the multiplication and of \<^verbatim>\<open>toFixed\<close>, which is not
  reproduced here (for 23 of 80 the script writes 28.7, the exact percentage being
  28.75): the value is the parameter \<open>percent1\<close>.
\<close>

definition success_rate_of :: "world \<Rightarrow> nat \<Rightarrow> nat \<Rightarrow> jsnum" where
  "success_rate_of w n_up n_all =
     (case js_div (real n_up) (real n_all) of
        Num _ \<Rightarrow> Num (percent1 w n_up n_all)
      | NaN \<Rightarrow> NaN | PosInf \<Rightarrow> PosInf | NegInf \<Rightarrow> NegInf)"

record WorkingList =
  wl_timestamp :: string
  total_checked :: nat
  working_count :: nat
  success_rate :: jsnum
  working_urls :: "(string \<times> string) list"

definition detailedList :: "world \<Rightarrow> UrlEntry list \<Rightarrow> CheckResult list \<Rightarrow> WorkingList" where
  "detailedList w uniqueUrls results =
     (let upUrls = filter isUp results
      in \<lparr>wl_timestamp = now_iso w, total_checked = length uniqueUrls,
          working_count = length upUrls,
          success_rate = success_rate_of w (length upUrls) (length uniqueUrls),
          working_urls = map (\<lambda>site. (c_url site, c_name site)) upUrls\<rparr>)"

definition listUpUrls :: "world \<Rightarrow> UrlEntry list \<Rightarrow> string + WorkingList" where
  "listUpUrls w urls =
     (let uniqueUrls = uniqueUrls_filter urls
      in case promise_all (map (checkUrl w) uniqueUrls) of
           Inl e \<Rightarrow> Inl e
         | Inr results \<Rightarrow> Inr (detailedList w uniqueUrls results))"

record SimpleOutput =
  so_timestamp :: string
  so_totalTime :: real
  sum_total :: nat
  sum_up :: nat
  sum_down :: nat
  successRate :: jsnum
  upSites :: "(string \<times> real) list"
  downSites :: "string list"

definition simpleOutput :: "world \<Rightarrow> SimpleResult list \<Rightarrow> SimpleOutput" where
  "simpleOutput w results =
     (let ups = js_sort (\<lambda>a b. responseTime a - responseTime b)
                  (filter (\<lambda>r. s_status r = UP) results);
          downs = filter (\<lambda>r. s_status r = DOWN) results
      in \<lparr>so_timestamp = now_iso w, so_totalTime = run_elapsed w,
          sum_total = length results, sum_up = length ups, sum_down = length downs,
          successRate = success_rate_of w (length ups) (length results),
          upSites = map (\<lambda>s. (s_url s, responseTime s)) ups,
          downSites = map s_url downs\<rparr>)"

definition fastCheck :: "world \<Rightarrow> UrlEntry list \<Rightarrow> string + SimpleOutput" where
  "fastCheck w urls =
     (let uniqueUrls = uniqueUrls_filter urls
      in case promise_all (map (quickPing w) uniqueUrls) of
           Inl e \<Rightarrow> Inl e
         | Inr results \<Rightarrow> Inr (simpleOutput w results))"

section \<open>The batch dispatcher (runAdvancedPingTest)\<close>

text \<open>\<^verbatim>\<open>xs.slice(i, j)\<close> for \<open>i \<le> j\<close>: the elements from \<open>i\<close> up to, not including, \<open>j\<close>, as far as the array goes.\<close>

definition slice :: "'a list \<Rightarrow> nat \<Rightarrow> nat \<Rightarrow> 'a list" where
  "slice xs i j = take (j - i) (drop i xs)"

text \<open>
  The console lines that show the course of a run: of the dispatcher, the line
  \<^verbatim>\<open>Processing batch k/n\<close> before the probes of a batch are called, the line
  \<^verbatim>\<open>Batch k complete\<close> after \<^verbatim>\<open>await Promise.all\<close> has returned their results, and
  the pause of one second between batches; of each probe, its first line
  \<^verbatim>\<open>Advanced testing ...\<close> and its last line, \<^verbatim>\<open>Results: ...\<close> at the end of the
  \<^verbatim>\<open>try\<close> block or \<^verbatim>\<open>Failed: ...\<close> in the \<^verbatim>\<open>catch\<close> block. The lines that a probe
  prints in between are left out.
\<close>

datatype event =
  Processing nat nat  \<comment> \<open>number of the batch, number of batches announced\<close>
  | Testing UrlEntry
  | Reported UrlEntry
  | Failed UrlEntry
  | Complete nat nat  \<comment> \<open>number of the batch, entries processed so far\<close>
  | Sleep nat

text \<open>
  \<^verbatim>\<open>advancedPingUrl\<close> is an \<^verbatim>\<open>async\<close> function. A call of it runs at once as far as its
  first \<^verbatim>\<open>await\<close> and returns a promise; the rest runs later, when what it awaits has
  completed, and settles the promise. The first \<^verbatim>\<open>await\<close> is that of the DNS lookup
  when lookups are enabled and that of the first probe otherwise; no \<^verbatim>\<open>await\<close> is
  reached when the address is rejected, or when there is neither lookup nor attempt. A
  call is described by the lines it prints before it returns the promise, by the instant
  at which the promise settles and the lines printed then (\<open>None\<close> when the promise is
  settled already), and by the value of the promise.
\<close>

record started =
  printed :: "event list"
  settles :: "(real \<times> event list) option"
  outcome :: "string + PingResult"

definition awaits :: "world \<Rightarrow> PingConfig \<Rightarrow> UrlEntry \<Rightarrow> bool" where
  "awaits w config entry =
     (case extractHostAndPort w (url entry) of
        Inl _ \<Rightarrow> False
      | Inr _ \<Rightarrow> enableDnsLookup config \<or> 0 < attempts config)"

definition advancedPingUrl_call :: "world \<Rightarrow> UrlEntry \<Rightarrow> PingConfig \<Rightarrow> started" where
  "advancedPingUrl_call w entry config =
     (case extractHostAndPort w (url entry) of
        Inl _ \<Rightarrow>
          \<lparr>printed = [Testing entry, Failed entry], settles = None,
           outcome = advancedPingUrl w entry config\<rparr>
      | Inr _ \<Rightarrow>
          if enableDnsLookup config \<or> 0 < attempts config
          then \<lparr>printed = [Testing entry],
                settles = Some (settled_at w (url entry), [Reported entry]),
                outcome = advancedPingUrl w entry config\<rparr>
          else \<lparr>printed = [Testing entry, Reported entry], settles = None,
                outcome = advancedPingUrl w entry config\<rparr>)"

text \<open>
  While \<^verbatim>\<open>await Promise.all(promises)\<close> waits, the probes that were left waiting
  complete one after the other, in the order of the instants at which their promises
  settle, and print their last lines then.
\<close>

definition settle_events :: "started list \<Rightarrow> event list" where
  "settle_events calls =
     concat (map snd (js_sort (\<lambda>a b. fst a - fst b) (List.map_filter settles calls)))"

record run_state =
  results :: "PingResult list"
  processed :: nat
  console :: "event list"

text \<open>
  The loop \<^verbatim>\<open>for (let i = 0; i < uniqueUrls.length; i += config.batchSize)\<close>. In its
  body \<^verbatim>\<open>batch.map(entry => advancedPingUrl(entry, config))\<close> calls the prober for every
  entry of the batch, one call after the other without waiting, and
  \<^verbatim>\<open>await Promise.all\<close> then waits for all the promises. With a batch size of zero and
  a non-empty catalog the loop never ends; the result \<open>None\<close> stands for that.
\<close>

partial_function (option) batch_loop ::
  "world \<Rightarrow> PingConfig \<Rightarrow> UrlEntry list \<Rightarrow> nat \<Rightarrow> run_state \<Rightarrow> (string + run_state) option" where
  "batch_loop w config uniqueUrls i st =
     (if i < length uniqueUrls then
        (let batch = slice uniqueUrls i (i + batchSize config);
             batchNum = i div batchSize config + 1;
             totalBatches = nat \<lceil>real (length uniqueUrls) / real (batchSize config)\<rceil>;
             calls = map (\<lambda>entry. advancedPingUrl_call w entry config) batch
         in case promise_all (map outcome calls) of
              Inl e \<Rightarrow> Some (Inl e)
            | Inr batchResults \<Rightarrow>
                batch_loop w config uniqueUrls (i + batchSize config)
                  \<lparr>results = results st @ batchResults,
                   processed = processed st + length batch,
                   console = console st @ [Processing batchNum totalBatches]
                     @ concat (map printed calls) @ settle_events calls
                     @ [Complete batchNum (processed st + length batch)]
                     @ (if i + batchSize config < length uniqueUrls then [Sleep 1000] else [])\<rparr>)
      else Some (Inr st))"

text \<open>The comparator of the final \<^verbatim>\<open>results.sort\<close>.\<close>

definition result_order :: "PingResult \<Rightarrow> PingResult \<Rightarrow> real" where
  "result_order a b =
     (if res_status a = UP \<and> res_status b \<noteq> UP then - 1
      else if res_status a \<noteq> UP \<and> res_status b = UP then 1
      else if res_status a = UP \<and> res_status b = UP
        then avg (statistics a) - avg (statistics b)
      else 0)"

text \<open>
  \<^verbatim>\<open>runAdvancedPingTest\<close> up to the sorted results that it writes out. The
  configuration is a local constant of the function; it is an argument here and the
  constant is \<open>run_config\<close>.
\<close>

definition run_config :: PingConfig where
  "run_config = \<lparr>attempts = 3, timeout = 5000, interval = 300, batchSize = 6,
     enableDnsLookup = True, enablePortCheck = True\<rparr>"

definition runAdvancedPingTest_with ::
  "world \<Rightarrow> PingConfig \<Rightarrow> UrlEntry list \<Rightarrow> (string + run_state) option" where
  "runAdvancedPingTest_with w config urls =
     (case batch_loop w config (uniqueUrls_map urls) 0 \<lparr>results = [], processed = 0, console = []\<rparr> of
        None \<Rightarrow> None
      | Some (Inl e) \<Rightarrow> Some (Inl e)
      | Some (Inr st) \<Rightarrow> Some (Inr (st\<lparr>results := js_sort result_order (results st)\<rparr>)))"

definition runAdvancedPingTest :: "world \<Rightarrow> UrlEntry list \<Rightarrow> (string + run_state) option" where
  "runAdvancedPingTest w urls = runAdvancedPingTest_with w run_config urls"

text \<open>
  The console that a run with \<open>n\<close> batches is expected to produce, for comparison with
  what the loop produces. Batch \<open>k\<close> (from 0) is announced; every probe of the batch is
  called and prints its first line (and its last line too, if it has nothing to wait
  for); the probes that wait print their last lines in the order in which they complete;
  the results are gathered; a pause follows unless the batch is the last.
\<close>

definition batch_of :: "PingConfig \<Rightarrow> UrlEntry list \<Rightarrow> nat \<Rightarrow> UrlEntry list" where
  "batch_of config xs k = slice xs (k * batchSize config) (k * batchSize config + batchSize config)"

definition last_line :: "world \<Rightarrow> UrlEntry \<Rightarrow> event" where
  "last_line w entry =
     (case extractHostAndPort w (url entry) of Inl _ \<Rightarrow> Failed entry | Inr _ \<Rightarrow> Reported entry)"

definition batch_starts :: "world \<Rightarrow> PingConfig \<Rightarrow> UrlEntry list \<Rightarrow> nat \<Rightarrow> event list" where
  "batch_starts w config xs k =
     concat (map (\<lambda>entry. if awaits w config entry then [Testing entry]
                            else [Testing entry, last_line w entry])
               (batch_of config xs k))"

definition batch_reports :: "world \<Rightarrow> PingConfig \<Rightarrow> UrlEntry list \<Rightarrow> nat \<Rightarrow> event list" where
  "batch_reports w config xs k =
     map Reported
       (js_sort (\<lambda>a b. settled_at w (url a) - settled_at w (url b))
          (filter (awaits w config) (batch_of config xs k)))"

definition batch_events :: "world \<Rightarrow> PingConfig \<Rightarrow> UrlEntry list \<Rightarrow> nat \<Rightarrow> nat \<Rightarrow> event list" where
  "batch_events w config xs n k =
     [Processing (k + 1) n] @ batch_starts w config xs k @ batch_reports w config xs k
     @ [Complete (k + 1) (min (length xs) ((k + 1) * batchSize config))]
     @ (if k + 1 < n then [Sleep 1000] else [])"

section \<open>What the probers return\<close>

text \<open>
  Every path through \<^verbatim>\<open>quickPing\<close>, \<^verbatim>\<open>checkUrl\<close> and \<^verbatim>\<open>advancedPingUrl\<close> ends in
  a \<^verbatim>\<open>return\<close>; these are the values returned, for stating what a whole run computes.
\<close>

definition quick_result :: "world \<Rightarrow> UrlEntry \<Rightarrow> SimpleResult" where
  "quick_result w entry =
     \<lparr>s_url = url entry, s_name = name entry,
      s_status = (case probe w (extractHostname w (url entry)) 2 0 of
                    Inr result \<Rightarrow> if resp_alive result then UP else DOWN
                  | Inl _ \<Rightarrow> DOWN),
      responseTime = elapsed w (url entry)\<rparr>"

definition check_result :: "world \<Rightarrow> UrlEntry \<Rightarrow> CheckResult" where
  "check_result w entry =
     \<lparr>c_url = url entry, c_name = name entry,
      isUp = (case probe w (extractHostname w (url entry)) 2 0 of
                Inr result \<Rightarrow> resp_alive result
              | Inl _ \<Rightarrow> False)\<rparr>"

definition ping_result :: "world \<Rightarrow> PingConfig \<Rightarrow> UrlEntry \<Rightarrow> PingResult" where
  "ping_result w config entry = projr (advancedPingUrl w entry config)"

text \<open>
  \<^verbatim>\<open>Math.ceil(uniqueUrls.length / config.batchSize)\<close>, the number of batches that the
  dispatcher announces, and the numbers of batches announced and gathered according to
  the console.
\<close>

definition total_batches :: "PingConfig \<Rightarrow> 'a list \<Rightarrow> nat" where
  "total_batches config xs = nat \<lceil>real (length xs) / real (batchSize config)\<rceil>"

definition announced :: "event list \<Rightarrow> nat" where
  "announced evs = length (filter (\<lambda>e. case e of Processing _ _ \<Rightarrow> True | _ \<Rightarrow> False) evs)"

definition gathered :: "event list \<Rightarrow> nat" where
  "gathered evs = length (filter (\<lambda>e. case e of Complete _ _ \<Rightarrow> True | _ \<Rightarrow> False) evs)"

section \<open>Reading the attempt loop\<close>

text \<open>
  Attempt \<open>i\<close> (from 0) succeeds when the probe returns and reports the host alive; a
  probe that throws does not. \<open>raw_of\<close> is the raw outcome that the loop records for
  attempt \<open>i\<close>.
\<close>

definition attempt_ok :: "world \<Rightarrow> string \<Rightarrow> PingConfig \<Rightarrow> nat \<Rightarrow> bool" where
  "attempt_ok w hostname config i =
     (case probe w hostname (timeout config / 1000) i of
        Inr result \<Rightarrow> resp_alive result
      | Inl _ \<Rightarrow> False)"

definition raw_of :: "world \<Rightarrow> string \<Rightarrow> PingConfig \<Rightarrow> nat \<Rightarrow> RawPing" where
  "raw_of w hostname config i =
     (case probe w hostname (timeout config / 1000) i of
        Inr result \<Rightarrow>
          \<lparr>alive = resp_alive result,
           time = (case resp_time result of None \<Rightarrow> probe_elapsed w hostname i | Some t \<Rightarrow> t),
           attempt = i + 1\<rparr>
      | Inl _ \<Rightarrow> \<lparr>alive = False, time = timeout config, attempt = i + 1\<rparr>)"

section \<open>A concrete network\<close>

text \<open>
  A network for evaluating the functions. \<^verbatim>\<open>a.example\<close> answers the first three
  probes and no later one, \<^verbatim>\<open>b.example\<close> answers every probe, \<^verbatim>\<open>c.example\<close>
  resolves and never answers, \<^verbatim>\<open>localhost\<close> answers, and the probe of any other host
  throws. The parser accepts the three addresses of these hosts that are URLs and
  rejects every other string; HTTP requests time out except a GET of the first address.
  The probe of the first address completes after 40 ms and that of the second after
  15 ms. The percentage of a non-empty run is the exact one rounded to one decimal; no
  statement below depends on it.
\<close>

definition w_demo :: world where
  "w_demo =
     \<lparr>new_URL = (\<lambda>s. if s = ''http://a.example''
                      then Inr \<lparr>url_hostname = ''a.example'', url_port = [], url_protocol = ''http:''\<rparr>
                    else if s = ''https://b.example:8443/tv''
                      then Inr \<lparr>url_hostname = ''b.example'', url_port = ''8443'', url_protocol = ''https:''\<rparr>
                    else if s = ''http://c.example''
                      then Inr \<lparr>url_hostname = ''c.example'', url_port = [], url_protocol = ''http:''\<rparr>
                    else Inl ''Invalid URL''),
      dnsLookup = (\<lambda>h. if h = ''a.example'' then Inr ''10.16.100.244''
                      else if h = ''b.example'' then Inr ''10.16.100.7''
                      else if h = ''c.example'' then Inr ''10.16.100.9''
                      else Inl ''getaddrinfo ENOTFOUND''),
      dns_elapsed = (\<lambda>h. 3),
      probe = (\<lambda>h t i. if h = ''a.example''
                           then Inr \<lparr>resp_alive = (i < 3), resp_time = (if i < 3 then Some 20 else None)\<rparr>
                         else if h = ''b.example'' then Inr \<lparr>resp_alive = True, resp_time = Some 8\<rparr>
                         else if h = ''c.example'' then Inr \<lparr>resp_alive = False, resp_time = None\<rparr>
                         else if h = ''localhost'' then Inr \<lparr>resp_alive = True, resp_time = Some 1\<rparr>
                         else Inl ''spawn ping ENOENT''),
      probe_elapsed = (\<lambda>h i. 5000),
      fetch = (\<lambda>m a. if a = ''http://a.example'' \<and> m = ''GET''
                         then Inr \<lparr>ok = True, http_status = 200\<rparr>
                       else Inl ''The operation timed out.''),
      elapsed = (\<lambda>a. if a = ''http://a.example'' then 40
                      else if a = ''https://b.example:8443/tv'' then 15 else 5001),
      run_elapsed = 5003,
      now_iso = ''2025-01-01T00:00:00.000Z'',
      settled_at = (\<lambda>a. if a = ''http://a.example'' then 40
                         else if a = ''https://b.example:8443/tv'' then 15 else 5001),
      percent1 = (\<lambda>a b. real_of_int \<lfloor>real a / real b * 1000 + 1 / 2\<rfloor> / 10)\<rparr>"

definition entry_a :: UrlEntry where
  "entry_a = \<lparr>name = ''A'', url = ''http://a.example'', type = ''FTP''\<rparr>"

definition entry_b :: UrlEntry where
  "entry_b = \<lparr>name = ''B'', url = ''https://b.example:8443/tv'', type = ''TV''\<rparr>"

definition entry_c :: UrlEntry where
  "entry_c = \<lparr>name = ''C'', url = ''http://c.example'', type = ''UNKNOWN''\<rparr>"

text \<open>
  Two entries whose addresses are not URLs: a bare host name, which the fallback
  expression does not match either, and an address with a space in its host, which it
  matches.
\<close>

definition entry_local :: UrlEntry where
  "entry_local = \<lparr>name = ''local'', url = ''localhost'', type = ''UNKNOWN''\<rparr>"

definition entry_x :: UrlEntry where
  "entry_x = \<lparr>name = ''X'', url = ''http://exa mple.com:8080/x'', type = ''FTP''\<rparr>"

text \<open>The configuration of the run with batches of two.\<close>

definition demo_config :: PingConfig where
  "demo_config = run_config\<lparr>batchSize := 2\<rparr>"

section \<open>Properties of deduplication\<close>

lemma filter_seen_length: "length (filter_seen seen xs) \<le> length xs"
  by (induction xs arbitrary: seen) (auto simp: le_SucI)

lemma filter_seen_fresh: "e \<in> set (filter_seen seen xs) \<Longrightarrow> url e \<notin> seen"
  by (induction xs arbitrary: seen) (auto split: if_splits)

lemma filter_seen_fixed:
  "distinct (map url xs) \<Longrightarrow> url ` set xs \<inter> seen = {} \<Longrightarrow> filter_seen seen xs = xs"
  by (induction xs arbitrary: seen) auto

lemma filter_seen_distinct: "distinct (map url (filter_seen seen xs))"
proof (induction xs arbitrary: seen)
  case Nil
  show ?case by simp
next
  case (Cons x xs)
  have "url x \<notin> url ` set (filter_seen (insert (url x) seen) xs)"
    using filter_seen_fresh by fastforce
  with Cons show ?case by simp
qed

lemma filter_seen_idem:
  "filter_seen {} (filter_seen seen xs) = filter_seen seen xs"
  by (rule filter_seen_fixed) (simp_all add: filter_seen_distinct)

lemma map_set_length: "length (map_set k v m) \<le> Suc (length m)"
  by (induction m) auto

lemma fold_map_set_length:
  "length (fold (\<lambda>p m. map_set (fst p) (snd p) m) ps m) \<le> length m + length ps"
proof (induction ps arbitrary: m)
  case Nil
  show ?case by simp
next
  case (Cons p ps)
  have "length (fold (\<lambda>p m. map_set (fst p) (snd p) m) ps (map_set (fst p) (snd p) m))
        \<le> length (map_set (fst p) (snd p) m) + length ps"
    by (rule Cons.IH)
  also have "\<dots> \<le> Suc (length m) + length ps"
    using map_set_length [of "fst p" "snd p" m] by simp
  finally show ?case by simp
qed

lemma map_set_keys:
  "map fst (map_set k v m) = (if k \<in> fst ` set m then map fst m else map fst m @ [k])"
  by (induction m) auto

lemma map_set_distinct: "distinct (map fst m) \<Longrightarrow> distinct (map fst (map_set k v m))"
  by (simp add: map_set_keys)

lemma map_set_keyed:
  "\<forall>p \<in> set m. fst p = f (snd p) \<Longrightarrow> k = f v \<Longrightarrow> \<forall>p \<in> set (map_set k v m). fst p = f (snd p)"
  by (induction m) auto

lemma map_set_new: "k \<notin> fst ` set m \<Longrightarrow> map_set k v m = m @ [(k, v)]"
  by (induction m) auto

lemma fold_map_set_inv:
  "distinct (map fst m) \<Longrightarrow> \<forall>p \<in> set m. fst p = f (snd p) \<Longrightarrow> \<forall>p \<in> set ps. fst p = f (snd p)
   \<Longrightarrow> distinct (map fst (fold (\<lambda>p m. map_set (fst p) (snd p) m) ps m))
     \<and> (\<forall>p \<in> set (fold (\<lambda>p m. map_set (fst p) (snd p) m) ps m). fst p = f (snd p))"
proof (induction ps arbitrary: m)
  case Nil
  then show ?case by simp
next
  case (Cons p ps)
  have d: "distinct (map fst (map_set (fst p) (snd p) m))"
    using Cons.prems(1) by (rule map_set_distinct)
  have k: "\<forall>q \<in> set (map_set (fst p) (snd p) m). fst q = f (snd q)"
    using Cons.prems(2,3) by (intro map_set_keyed) simp_all
  from Cons.IH [OF d k] Cons.prems(3) show ?case by simp
qed

lemma fold_map_set_fixed:
  "distinct (map fst (m @ ps)) \<Longrightarrow> fold (\<lambda>p m. map_set (fst p) (snd p) m) ps m = m @ ps"
proof (induction ps arbitrary: m)
  case Nil
  show ?case by simp
next
  case (Cons p ps)
  from Cons.prems have new: "fst p \<notin> fst ` set m" by auto
  from Cons.prems have "distinct (map fst ((m @ [p]) @ ps))" by simp
  from Cons.IH [OF this] new show ?case by (simp add: map_set_new)
qed

lemma new_Map_inv:
  "distinct (map fst (new_Map (map (\<lambda>item. (url item, item)) xs)))
   \<and> (\<forall>p \<in> set (new_Map (map (\<lambda>item. (url item, item)) xs)). fst p = url (snd p))"
  unfolding new_Map_def by (rule fold_map_set_inv) simp_all

lemma uniqueUrls_map_idem: "uniqueUrls_map (uniqueUrls_map xs) = uniqueUrls_map xs"
proof -
  let ?m = "new_Map (map (\<lambda>item. (url item, item)) xs)"
  have keyed: "\<forall>p \<in> set ?m. fst p = url (snd p)" and dist: "distinct (map fst ?m)"
    using new_Map_inv [of xs] by blast+
  have "\<And>p. p \<in> set ?m \<Longrightarrow> (url (snd p), snd p) = p"
    using keyed by (simp add: prod_eq_iff)
  then have rebuild: "map ((\<lambda>item. (url item, item)) \<circ> snd) ?m = ?m"
    by (simp add: map_idI)
  have "new_Map ?m = ?m"
    unfolding new_Map_def [of ?m] using fold_map_set_fixed [of "[]" ?m] dist by simp
  then show ?thesis
    by (simp add: uniqueUrls_map_def map_values_def rebuild)
qed

lemma uniqueUrls_map_length: "length (uniqueUrls_map xs) \<le> length xs"
  using fold_map_set_length [of "map (\<lambda>item. (url item, item)) xs" "[]"]
  by (simp add: uniqueUrls_map_def map_values_def new_Map_def)

text \<open>
  Claim C7. Deduplication is idempotent, never lengthens its input and maps the empty
  catalog to the empty catalog. This holds for the filter of \<^verbatim>\<open>listUpUrls\<close> and
  \<^verbatim>\<open>fastCheck\<close> and for the \<^verbatim>\<open>Map\<close> of \<^verbatim>\<open>runAdvancedPingTest\<close> alike.
\<close>

theorem dedup_idempotent_shorter_empty:
  "uniqueUrls_filter (uniqueUrls_filter xs) = uniqueUrls_filter xs
   \<and> length (uniqueUrls_filter xs) \<le> length xs
   \<and> uniqueUrls_filter [] = []
   \<and> uniqueUrls_map (uniqueUrls_map xs) = uniqueUrls_map xs
   \<and> length (uniqueUrls_map xs) \<le> length xs
   \<and> uniqueUrls_map [] = []"
proof -
  have "uniqueUrls_map [] = []"
    by (simp add: uniqueUrls_map_def map_values_def new_Map_def)
  then show ?thesis
    by (simp add: uniqueUrls_filter_def filter_seen_idem filter_seen_length
        uniqueUrls_map_idem uniqueUrls_map_length)
qed

section \<open>Properties of the multi-attempt prober\<close>

lemma attempt_step_eq:
  "attempt_step w h c i st =
     (fst st @ [raw_of w h c i],
      if attempt_ok w h c i then snd st @ [time (raw_of w h c i)] else snd st)"
  by (simp add: attempt_step_def raw_of_def attempt_ok_def Let_def split: sum.splits)

lemma fold_attempt_step:
  "fold (attempt_step w h c) js st =
     (fst st @ map (raw_of w h c) js,
      snd st @ map (\<lambda>i. time (raw_of w h c i)) (filter (attempt_ok w h c) js))"
  by (induction js arbitrary: st) (simp_all add: attempt_step_eq)

lemma ping_attempts_eq:
  "ping_attempts w h c =
     (map (raw_of w h c) [0..<attempts c],
      map (\<lambda>i. time (raw_of w h c i)) (filter (attempt_ok w h c) [0..<attempts c]))"
  by (simp add: ping_attempts_def fold_attempt_step)

lemma alive_raw_of: "alive (raw_of w h c i) = attempt_ok w h c i"
  by (simp add: raw_of_def attempt_ok_def split: sum.splits)

lemma successes_le: "length (filter P [0..<n]) \<le> n"
  using length_filter_le [of P "[0..<n]"] by simp

lemma filter_full: "length (filter P xs) = length xs \<longleftrightarrow> (\<forall>x \<in> set xs. P x)"
proof (induction xs)
  case Nil
  show ?case by simp
next
  case (Cons x xs)
  have le: "length (filter P xs) \<le> length xs" by (rule length_filter_le)
  show ?case
  proof (cases "P x")
    case True
    with Cons show ?thesis by simp
  next
    case False
    with le show ?thesis by (simp del: length_filter_le)
  qed
qed

lemma successes_all: "length (filter P [0..<n]) = n \<longleftrightarrow> (\<forall>i<n. P i)"
  using filter_full [of P "[0..<n]"] by auto

lemma successes_none: "length (filter P [0..<n]) = 0 \<longleftrightarrow> (\<forall>i<n. \<not> P i)"
  by (auto simp: filter_empty_conv)

lemma failures_count:
  "length (filter (\<lambda>i. \<not> P i) [0..<n]) = n - length (filter P [0..<n])"
  using sum_length_filter_compl [of P "[0..<n]"] by simp

lemma js_loss:
  "0 < a \<Longrightarrow> js_mul (js_div (real a - real s) (real a)) 100 = Num ((real a - real s) / real a * 100)"
  by (simp add: js_div_def js_mul_def)

lemma advancedPingUrl_normal:
  assumes "extractHostAndPort w (url entry) = Inr hp"
  shows "\<exists>r. advancedPingUrl w entry config = Inr r
    \<and> successfulPings r = length (filter (attempt_ok w (hp_hostname hp) config) [0..<attempts config])
    \<and> res_status r = (if successfulPings r = attempts config then UP
                        else if successfulPings r > 0 then PARTIAL else DOWN)
    \<and> loss (statistics r) = js_mul (js_div (real (attempts config) - real (successfulPings r))
                                        (real (attempts config))) 100
    \<and> rawPingResults r = map (raw_of w (hp_hostname hp) config) [0..<attempts config]
    \<and> res_attempts r = attempts config
    \<and> error r = None
    \<and> totalTime r = elapsed w (url entry)"
  by (simp add: advancedPingUrl_def advancedPingUrl_try_def assms ping_attempts_eq Let_def)

text \<open>
  Claim C4. An endpoint is probed when its host could be extracted and at least one
  attempt is configured. Then it is UP exactly when every attempt succeeds, PARTIAL
  exactly when some attempt succeeds and some attempt fails, DOWN exactly when no attempt
  succeeds, and the reported loss is the number of failed attempts divided by the number
  of attempts, times 100.
\<close>

theorem classification_by_attempts:
  assumes "0 < attempts config"
    and "extractHostAndPort w (url entry) = Inr hp"
  shows "\<exists>r. advancedPingUrl w entry config = Inr r
    \<and> (res_status r = UP \<longleftrightarrow> (\<forall>i < attempts config. attempt_ok w (hp_hostname hp) config i))
    \<and> (res_status r = PARTIAL \<longleftrightarrow>
          (\<exists>i < attempts config. attempt_ok w (hp_hostname hp) config i)
          \<and> (\<exists>i < attempts config. \<not> attempt_ok w (hp_hostname hp) config i))
    \<and> (res_status r = DOWN \<longleftrightarrow> (\<forall>i < attempts config. \<not> attempt_ok w (hp_hostname hp) config i))
    \<and> loss (statistics r) =
          Num (real (length (filter (\<lambda>i. \<not> attempt_ok w (hp_hostname hp) config i) [0..<attempts config]))
               / real (attempts config) * 100)"
proof -
  let ?ok = "attempt_ok w (hp_hostname hp) config"
  let ?a = "attempts config"
  let ?s = "length (filter ?ok [0..<?a])"
  from advancedPingUrl_normal [OF assms(2), of config] obtain r where
    r: "advancedPingUrl w entry config = Inr r" and
    s: "successfulPings r = ?s" and
    st: "res_status r = (if successfulPings r = ?a then UP
                         else if successfulPings r > 0 then PARTIAL else DOWN)" and
    l: "loss (statistics r) = js_mul (js_div (real ?a - real (successfulPings r)) (real ?a)) 100"
    by blast
  have le: "?s \<le> ?a" by (rule successes_le)
  have all: "?s = ?a \<longleftrightarrow> (\<forall>i < ?a. ?ok i)" by (rule successes_all)
  have none: "?s = 0 \<longleftrightarrow> (\<forall>i < ?a. \<not> ?ok i)" by (rule successes_none)
  have up: "res_status r = UP \<longleftrightarrow> (\<forall>i < ?a. ?ok i)"
    using st s all by simp
  have down: "res_status r = DOWN \<longleftrightarrow> (\<forall>i < ?a. \<not> ?ok i)"
    using st s none all assms(1) by auto
  have partial: "res_status r = PARTIAL \<longleftrightarrow> (\<exists>i < ?a. ?ok i) \<and> (\<exists>i < ?a. \<not> ?ok i)"
    using st s none all by auto
  have "real (length (filter (\<lambda>i. \<not> ?ok i) [0..<?a])) = real ?a - real ?s"
    using le by (simp add: failures_count of_nat_diff)
  then have "loss (statistics r) = Num (real (length (filter (\<lambda>i. \<not> ?ok i) [0..<?a])) / real ?a * 100)"
    using l s assms(1) by (simp add: js_loss)
  with r up down partial show ?thesis by blast
qed

lemma upt5: "[0..<5] = [0, 1, 2, 3, 4]"
  by (simp add: upt_rec)

lemma demo_ok_a: "attempt_ok w_demo ''a.example'' DEFAULT_CONFIG i = (i < 3)"
  by (simp add: attempt_ok_def w_demo_def)

lemma demo_ok_b: "attempt_ok w_demo ''b.example'' DEFAULT_CONFIG i = True"
  by (simp add: attempt_ok_def w_demo_def)

lemma demo_ok_c: "attempt_ok w_demo ''c.example'' DEFAULT_CONFIG i = False"
  by (simp add: attempt_ok_def w_demo_def)

lemma demo_host_a:
  "extractHostAndPort w_demo (url entry_a) =
     Inr \<lparr>hp_hostname = ''a.example'', hp_port = Some 80, hp_isHttps = False\<rparr>"
  by (simp add: extractHostAndPort_def w_demo_def entry_a_def)

lemma demo_host_b:
  "extractHostAndPort w_demo (url entry_b) =
     Inr \<lparr>hp_hostname = ''b.example'', hp_port = Some 8443, hp_isHttps = True\<rparr>"
  by (simp add: extractHostAndPort_def w_demo_def entry_b_def parseInt_def)

lemma demo_host_c:
  "extractHostAndPort w_demo (url entry_c) =
     Inr \<lparr>hp_hostname = ''c.example'', hp_port = Some 80, hp_isHttps = False\<rparr>"
  by (simp add: extractHostAndPort_def w_demo_def entry_c_def)

lemma demo_attempts: "attempts DEFAULT_CONFIG = 5"
  by (simp add: DEFAULT_CONFIG_def)

text \<open>
  With five attempts: three successes of five are PARTIAL with loss 40, five of five are
  UP with loss 0, none of five is DOWN with loss 100.
\<close>

theorem classification_by_attempts_witness:
  "0 < attempts DEFAULT_CONFIG
   \<and> extractHostAndPort w_demo (url entry_a) =
       Inr \<lparr>hp_hostname = ''a.example'', hp_port = Some 80, hp_isHttps = False\<rparr>
   \<and> (\<exists>r. advancedPingUrl w_demo entry_a DEFAULT_CONFIG = Inr r
          \<and> res_status r = PARTIAL \<and> loss (statistics r) = Num 40)
   \<and> (\<exists>r. advancedPingUrl w_demo entry_b DEFAULT_CONFIG = Inr r
          \<and> res_status r = UP \<and> loss (statistics r) = Num 0)
   \<and> (\<exists>r. advancedPingUrl w_demo entry_c DEFAULT_CONFIG = Inr r
          \<and> res_status r = DOWN \<and> loss (statistics r) = Num 100)"
proof -
  have pos: "0 < attempts DEFAULT_CONFIG" by (simp add: demo_attempts)
  have a: "\<exists>r. advancedPingUrl w_demo entry_a DEFAULT_CONFIG = Inr r
          \<and> res_status r = PARTIAL \<and> loss (statistics r) = Num 40"
  proof -
    from classification_by_attempts [OF pos demo_host_a] obtain r where
      r: "advancedPingUrl w_demo entry_a DEFAULT_CONFIG = Inr r" and
      p: "res_status r = PARTIAL \<longleftrightarrow>
            (\<exists>i < 5. attempt_ok w_demo ''a.example'' DEFAULT_CONFIG i)
            \<and> (\<exists>i < 5. \<not> attempt_ok w_demo ''a.example'' DEFAULT_CONFIG i)" and
      l: "loss (statistics r) =
            Num (real (length (filter (\<lambda>i. \<not> attempt_ok w_demo ''a.example'' DEFAULT_CONFIG i) [0..<5]))
                 / real 5 * 100)"
      unfolding demo_attempts by auto
    have e1: "\<exists>i < 5. attempt_ok w_demo ''a.example'' DEFAULT_CONFIG i"
      by (rule exI [of _ 0]) (simp add: demo_ok_a)
    have e2: "\<exists>i < 5. \<not> attempt_ok w_demo ''a.example'' DEFAULT_CONFIG i"
      by (rule exI [of _ 3]) (simp add: demo_ok_a)
    have "loss (statistics r) = Num 40"
      unfolding l by (simp add: demo_ok_a upt5)
    with r p e1 e2 show ?thesis by blast
  qed
  have b: "\<exists>r. advancedPingUrl w_demo entry_b DEFAULT_CONFIG = Inr r
          \<and> res_status r = UP \<and> loss (statistics r) = Num 0"
  proof -
    from classification_by_attempts [OF pos demo_host_b] obtain r where
      r: "advancedPingUrl w_demo entry_b DEFAULT_CONFIG = Inr r" and
      p: "res_status r = UP \<longleftrightarrow> (\<forall>i < 5. attempt_ok w_demo ''b.example'' DEFAULT_CONFIG i)" and
      l: "loss (statistics r) =
            Num (real (length (filter (\<lambda>i. \<not> attempt_ok w_demo ''b.example'' DEFAULT_CONFIG i) [0..<5]))
                 / real 5 * 100)"
      unfolding demo_attempts by auto
    have "res_status r = UP" unfolding p by (simp add: demo_ok_b)
    moreover have "loss (statistics r) = Num 0" unfolding l by (simp add: demo_ok_b)
    ultimately show ?thesis using r by blast
  qed
  have c: "\<exists>r. advancedPingUrl w_demo entry_c DEFAULT_CONFIG = Inr r
          \<and> res_status r = DOWN \<and> loss (statistics r) = Num 100"
  proof -
    from classification_by_attempts [OF pos demo_host_c] obtain r where
      r: "advancedPingUrl w_demo entry_c DEFAULT_CONFIG = Inr r" and
      p: "res_status r = DOWN \<longleftrightarrow> (\<forall>i < 5. \<not> attempt_ok w_demo ''c.example'' DEFAULT_CONFIG i)" and
      l: "loss (statistics r) =
            Num (real (length (filter (\<lambda>i. \<not> attempt_ok w_demo ''c.example'' DEFAULT_CONFIG i) [0..<5]))
                 / real 5 * 100)"
      unfolding demo_attempts by auto
    have "res_status r = DOWN" unfolding p by (simp add: demo_ok_c)
    moreover have "loss (statistics r) = Num 100" unfolding l by (simp add: demo_ok_c)
    ultimately show ?thesis using r by blast
  qed
  from pos demo_host_a a b c show ?thesis by blast
qed

text \<open>
  Claim C10. With at least one attempt configured, the result of the multi-attempt
  prober, on the normal path and on the exception path, has a count of successful pings
  between 0 and the number of attempts and a loss of (attempts - successful pings) /
  attempts times 100; UP implies loss 0, DOWN implies loss 100, and on the normal path
  the raw outcomes marked alive are as many as the successful pings.
\<close>

theorem result_invariant:
  assumes "1 \<le> attempts config"
  shows "\<exists>r. advancedPingUrl w entry config = Inr r
    \<and> 0 \<le> successfulPings r \<and> successfulPings r \<le> attempts config
    \<and> res_attempts r = attempts config
    \<and> loss (statistics r) =
        Num ((real (attempts config) - real (successfulPings r)) / real (attempts config) * 100)
    \<and> (res_status r = UP \<longrightarrow> loss (statistics r) = Num 0)
    \<and> (res_status r = DOWN \<longrightarrow> loss (statistics r) = Num 100)
    \<and> ((\<exists>hp. extractHostAndPort w (url entry) = Inr hp)
         \<longrightarrow> length (filter alive (rawPingResults r)) = successfulPings r)"
proof (cases "extractHostAndPort w (url entry)")
  case (Inl msg)
  then show ?thesis
    using assms by (simp add: advancedPingUrl_def advancedPingUrl_try_def)
next
  case (Inr hp)
  let ?ok = "attempt_ok w (hp_hostname hp) config"
  let ?a = "attempts config"
  from advancedPingUrl_normal [OF Inr, of config] obtain r where
    r: "advancedPingUrl w entry config = Inr r" and
    s: "successfulPings r = length (filter ?ok [0..<?a])" and
    st: "res_status r = (if successfulPings r = ?a then UP
                         else if successfulPings r > 0 then PARTIAL else DOWN)" and
    l: "loss (statistics r) = js_mul (js_div (real ?a - real (successfulPings r)) (real ?a)) 100" and
    raw: "rawPingResults r = map (raw_of w (hp_hostname hp) config) [0..<?a]" and
    att: "res_attempts r = ?a"
    by blast
  have pos: "0 < ?a" using assms by simp
  have le: "successfulPings r \<le> ?a" unfolding s by (rule successes_le)
  have loss_eq: "loss (statistics r) = Num ((real ?a - real (successfulPings r)) / real ?a * 100)"
    using l pos by (simp add: js_loss)
  have up: "res_status r = UP \<longrightarrow> loss (statistics r) = Num 0"
    using st loss_eq by (simp split: if_splits)
  have down: "res_status r = DOWN \<longrightarrow> loss (statistics r) = Num 100"
    using st loss_eq pos by (simp split: if_splits)
  have "filter alive (map (raw_of w (hp_hostname hp) config) [0..<?a])
        = map (raw_of w (hp_hostname hp) config) (filter ?ok [0..<?a])"
    by (simp add: filter_map comp_def alive_raw_of)
  then have cnt: "length (filter alive (rawPingResults r)) = successfulPings r"
    using raw s by simp
  from r le att loss_eq up down cnt show ?thesis by simp
qed

theorem result_invariant_witness:
  "1 \<le> attempts DEFAULT_CONFIG
   \<and> (\<exists>r. advancedPingUrl w_demo entry_a DEFAULT_CONFIG = Inr r
          \<and> successfulPings r \<le> 5 \<and> res_attempts r = 5
          \<and> loss (statistics r) = Num ((5 - real (successfulPings r)) / 5 * 100)
          \<and> length (filter alive (rawPingResults r)) = successfulPings r)"
proof -
  have one: "1 \<le> attempts DEFAULT_CONFIG" by (simp add: demo_attempts)
  have "\<exists>hp. extractHostAndPort w_demo (url entry_a) = Inr hp"
    using demo_host_a by blast
  with result_invariant [OF one, of w_demo entry_a] one show ?thesis
    by (auto simp: demo_attempts)
qed

text \<open>
  Claim C6. The statistics of an empty list of samples are min = max = avg = stddev = 0
  and loss = 100.
\<close>

theorem empty_sample_statistics:
  "calculateStatistics [] = \<lparr>stat_min = 0, stat_max = 0, avg = 0, stddev = 0, loss = Num 100\<rparr>"
  by (simp add: calculateStatistics_def)

text \<open>The samples 10, 20, 30: the standard deviation is the root of 200/3, about 8.165.\<close>

lemma sample_statistics_10_20_30:
  "stat_min (calculateStatistics [10, 20, 30]) = 10
   \<and> stat_max (calculateStatistics [10, 20, 30]) = 30
   \<and> avg (calculateStatistics [10, 20, 30]) = 20
   \<and> (stddev (calculateStatistics [10, 20, 30]))\<^sup>2 = 200 / 3"
  by (simp add: calculateStatistics_def Let_def)

section \<open>Properties of the runs\<close>

text \<open>
  Claim C1. On the catalog A, B, C in which A and B have the same address, the
  \<^verbatim>\<open>Map\<close> of \<^verbatim>\<open>runAdvancedPingTest\<close> keeps B, the last entry with that address, at
  the place of the first; the filter of \<^verbatim>\<open>listUpUrls\<close> and \<^verbatim>\<open>fastCheck\<close> keeps A.
\<close>

theorem map_dedup_keeps_last_occurrence:
  "uniqueUrls_map
     [\<lparr>name = ''A'', url = ''http://a.example'', type = ''FTP''\<rparr>,
      \<lparr>name = ''B'', url = ''http://a.example'', type = ''FTP''\<rparr>,
      \<lparr>name = ''C'', url = ''http://b.example'', type = ''FTP''\<rparr>]
   = [\<lparr>name = ''B'', url = ''http://a.example'', type = ''FTP''\<rparr>,
      \<lparr>name = ''C'', url = ''http://b.example'', type = ''FTP''\<rparr>]
   \<and> uniqueUrls_filter
     [\<lparr>name = ''A'', url = ''http://a.example'', type = ''FTP''\<rparr>,
      \<lparr>name = ''B'', url = ''http://a.example'', type = ''FTP''\<rparr>,
      \<lparr>name = ''C'', url = ''http://b.example'', type = ''FTP''\<rparr>]
   = [\<lparr>name = ''A'', url = ''http://a.example'', type = ''FTP''\<rparr>,
      \<lparr>name = ''C'', url = ''http://b.example'', type = ''FTP''\<rparr>]"
  by (simp add: uniqueUrls_map_def map_values_def new_Map_def uniqueUrls_filter_def)

lemma promise_all_map:
  "(\<And>x. x \<in> set xs \<Longrightarrow> f x = Inr (g x)) \<Longrightarrow> promise_all (map f xs) = Inr (map g xs)"
  by (induction xs) simp_all

lemma quickPing_returns: "quickPing w entry = Inr (quick_result w entry)"
  by (simp add: quickPing_def quick_result_def Let_def split: sum.splits)

lemma checkUrl_returns: "checkUrl w entry = Inr (check_result w entry)"
  by (simp add: checkUrl_def check_result_def Let_def split: sum.splits)

lemma fastCheck_returns:
  "fastCheck w urls = Inr (simpleOutput w (map (quick_result w) (uniqueUrls_filter urls)))"
  by (simp add: fastCheck_def Let_def promise_all_map [where g = "quick_result w"] quickPing_returns)

lemma listUpUrls_returns:
  "listUpUrls w urls =
     Inr (detailedList w (uniqueUrls_filter urls) (map (check_result w) (uniqueUrls_filter urls)))"
  by (simp add: listUpUrls_def Let_def promise_all_map [where g = "check_result w"] checkUrl_returns)

lemma insert_sorted_length: "length (insert_sorted cmp x ys) = Suc (length ys)"
  by (induction ys) simp_all

lemma js_sort_length: "length (js_sort cmp xs) = length xs"
  by (induction xs) (simp_all add: js_sort_def insert_sorted_length)

lemma success_rate_of_NaN: "success_rate_of w n m = NaN \<longleftrightarrow> n = 0 \<and> m = 0"
  by (simp add: success_rate_of_def js_div_def)

text \<open>
  Claim C2, at the empty catalog: both summaries are produced, and their success rate
  is \<^verbatim>\<open>NaN\<close>, the value of \<^verbatim>\<open>0 / 0\<close>, and not 0.
\<close>

theorem empty_run_success_rate_not_zero:
  "fastCheck w_demo [] = Inr (simpleOutput w_demo [])
   \<and> successRate (simpleOutput w_demo []) = NaN
   \<and> successRate (simpleOutput w_demo []) \<noteq> Num 0
   \<and> listUpUrls w_demo [] = Inr (detailedList w_demo [] [])
   \<and> success_rate (detailedList w_demo [] []) = NaN
   \<and> success_rate (detailedList w_demo [] []) \<noteq> Num 0"
  by (simp add: fastCheck_def listUpUrls_def uniqueUrls_filter_def simpleOutput_def
      detailedList_def js_sort_def success_rate_of_def js_div_def)

text \<open>
  Claim C2, as the code has it. The aggregation of \<^verbatim>\<open>fastCheck\<close> and of
  \<^verbatim>\<open>listUpUrls\<close> always produces its summary, for every catalog and network; no
  division is guarded, and the success rate of the summary is \<^verbatim>\<open>NaN\<close> exactly when no
  endpoint was checked.
\<close>

theorem success_rate_total:
  "(\<exists>out. fastCheck w urls = Inr out
      \<and> sum_total out = length (uniqueUrls_filter urls)
      \<and> (successRate out = NaN) = (sum_total out = 0))
   \<and> (\<exists>out. listUpUrls w urls = Inr out
      \<and> total_checked out = length (uniqueUrls_filter urls)
      \<and> (success_rate out = NaN) = (total_checked out = 0))"
proof -
  let ?rs = "map (quick_result w) (uniqueUrls_filter urls)"
  let ?out = "simpleOutput w ?rs"
  have tot: "sum_total ?out = length (uniqueUrls_filter urls)"
    by (simp add: simpleOutput_def Let_def)
  have "length (filter (\<lambda>r. s_status r = UP) ?rs) \<le> length ?rs"
    by (rule length_filter_le)
  then have rate: "(successRate ?out = NaN) = (sum_total ?out = 0)"
    by (auto simp: simpleOutput_def Let_def js_sort_length success_rate_of_NaN
        simp del: length_filter_le)
  have fast: "\<exists>out. fastCheck w urls = Inr out
      \<and> sum_total out = length (uniqueUrls_filter urls)
      \<and> (successRate out = NaN) = (sum_total out = 0)"
    by (rule exI [of _ ?out]) (simp add: fastCheck_returns tot rate)
  let ?cs = "map (check_result w) (uniqueUrls_filter urls)"
  let ?dl = "detailedList w (uniqueUrls_filter urls) ?cs"
  have tc: "total_checked ?dl = length (uniqueUrls_filter urls)"
    by (simp add: detailedList_def Let_def)
  have "length (filter isUp ?cs) \<le> length ?cs"
    by (rule length_filter_le)
  then have rate2: "(success_rate ?dl = NaN) = (total_checked ?dl = 0)"
    by (auto simp: detailedList_def Let_def success_rate_of_NaN simp del: length_filter_le)
  have lst: "\<exists>out. listUpUrls w urls = Inr out
      \<and> total_checked out = length (uniqueUrls_filter urls)
      \<and> (success_rate out = NaN) = (total_checked out = 0)"
    by (rule exI [of _ ?dl]) (simp add: listUpUrls_returns tc rate2)
  from fast lst show ?thesis by blast
qed

lemma advancedPingUrl_returns: "advancedPingUrl w entry config = Inr (ping_result w config entry)"
  by (simp add: ping_result_def advancedPingUrl_def split: sum.splits)

lemma batch_index: "0 < B \<Longrightarrow> k < nat \<lceil>real N / real B\<rceil> \<longleftrightarrow> k * B < N"
proof -
  assume B: "0 < B"
  have "k < nat \<lceil>real N / real B\<rceil> \<longleftrightarrow> int k < \<lceil>real N / real B\<rceil>"
    by linarith
  also have "\<dots> \<longleftrightarrow> real k < real N / real B"
    by (simp add: less_ceiling_iff)
  also have "\<dots> \<longleftrightarrow> real k * real B < real N"
    using B by (simp add: pos_less_divide_eq)
  also have "\<dots> \<longleftrightarrow> k * B < N"
    by (metis of_nat_less_iff of_nat_mult)
  finally show ?thesis .
qed

lemma slice_batch: "slice xs i (i + B) = take B (drop i xs)"
  by (simp add: slice_def)

lemma outcome_call: "outcome (advancedPingUrl_call w entry config) = advancedPingUrl w entry config"
  by (simp add: advancedPingUrl_call_def split: sum.splits)

lemma printed_call:
  "printed (advancedPingUrl_call w entry config) =
     (if awaits w config entry then [Testing entry] else [Testing entry, last_line w entry])"
  by (simp add: advancedPingUrl_call_def awaits_def last_line_def split: sum.splits)

lemma settles_call:
  "settles (advancedPingUrl_call w entry config) =
     (if awaits w config entry then Some (settled_at w (url entry), [Reported entry]) else None)"
  by (simp add: advancedPingUrl_call_def awaits_def split: sum.splits)

lemma waiting_calls:
  "List.map_filter settles (map (\<lambda>entry. advancedPingUrl_call w entry config) xs) =
     map (\<lambda>entry. (settled_at w (url entry), [Reported entry])) (filter (awaits w config) xs)"
  by (induction xs) (simp_all add: List.map_filter_simps settles_call)

lemma insert_sorted_map:
  "insert_sorted cmp (f x) (map f ys) = map f (insert_sorted (\<lambda>a b. cmp (f a) (f b)) x ys)"
  by (induction ys) simp_all

lemma js_sort_map: "js_sort cmp (map f xs) = map f (js_sort (\<lambda>a b. cmp (f a) (f b)) xs)"
  by (induction xs) (simp_all add: js_sort_def insert_sorted_map)

lemma settle_events_calls:
  "settle_events (map (\<lambda>entry. advancedPingUrl_call w entry config) xs) =
     map Reported (js_sort (\<lambda>a b. settled_at w (url a) - settled_at w (url b))
                     (filter (awaits w config) xs))"
proof -
  have "concat (map snd (map (\<lambda>entry. (settled_at w (url entry), [Reported entry])) ys))
        = map Reported ys" for ys
    by (induction ys) simp_all
  then show ?thesis
    by (simp add: settle_events_def waiting_calls js_sort_map)
qed

lemma printed_calls:
  "concat (map printed (map (\<lambda>entry. advancedPingUrl_call w entry config) xs)) =
     concat (map (\<lambda>entry. if awaits w config entry then [Testing entry]
                            else [Testing entry, last_line w entry]) xs)"
  by (induction xs) (simp_all add: printed_call)

lemma batch_loop_from:
  assumes B: "0 < batchSize config"
  shows "k \<le> total_batches config xs \<Longrightarrow> processed st = min (length xs) (k * batchSize config) \<Longrightarrow>
    batch_loop w config xs (k * batchSize config) st =
      Some (Inr \<lparr>results = results st @ map (ping_result w config) (drop (k * batchSize config) xs),
                 processed = length xs,
                 console = console st
                   @ concat (map (batch_events w config xs (total_batches config xs))
                               [k..<total_batches config xs])\<rparr>)"
proof (induction "total_batches config xs - k" arbitrary: k st)
  case 0
  then have k: "k = total_batches config xs" by simp
  then have "\<not> k * batchSize config < length xs"
    using batch_index [OF B, of k "length xs"] by (simp add: total_batches_def)
  then show ?case
    using 0(3) k by (subst batch_loop.simps) simp
next
  case (Suc d)
  let ?B = "batchSize config"
  let ?n = "total_batches config xs"
  let ?i = "k * ?B"
  let ?g = "ping_result w config"
  from Suc(2) have klt: "k < ?n" by simp
  then have ilt: "?i < length xs"
    using batch_index [OF B, of k "length xs"] by (simp add: total_batches_def)
  define batch where "batch = slice xs ?i (?i + ?B)"
  define calls where "calls = map (\<lambda>entry. advancedPingUrl_call w entry config) batch"
  define st' where "st' =
     \<lparr>results = results st @ map ?g batch,
      processed = processed st + length batch,
      console = console st @ [Processing (?i div ?B + 1) ?n]
        @ concat (map printed calls) @ settle_events calls
        @ [Complete (?i div ?B + 1) (processed st + length batch)]
        @ (if ?i + ?B < length xs then [Sleep 1000] else [])\<rparr>"
  have "map outcome calls = map (\<lambda>entry. advancedPingUrl w entry config) batch"
    by (simp add: calls_def outcome_call comp_def)
  moreover have "promise_all (map (\<lambda>entry. advancedPingUrl w entry config) batch) = Inr (map ?g batch)"
    by (rule promise_all_map) (simp add: advancedPingUrl_returns)
  ultimately have all: "promise_all (map outcome calls) = Inr (map ?g batch)"
    by simp
  have step: "batch_loop w config xs ?i st = batch_loop w config xs (?i + ?B) st'"
    using ilt all
    by (subst batch_loop.simps) (simp add: Let_def total_batches_def st'_def batch_def calls_def)
  have next_i: "?i + ?B = Suc k * ?B" by simp
  have d: "d = ?n - Suc k" using Suc(2) by simp
  have le: "Suc k \<le> ?n" using klt by simp
  have b1: "batch = take ?B (drop ?i xs)"
    unfolding batch_def by (rule slice_batch)
  have len: "length batch = min ?B (length xs - ?i)"
    by (simp add: b1)
  have arith: "\<And>i b n p l :: nat. p = min n i \<Longrightarrow> i < n \<Longrightarrow> l = min b (n - i) \<Longrightarrow> p + l = min n (i + b)"
    by arith
  have pl: "processed st + length batch = min (length xs) (?i + ?B)"
    using Suc(4) ilt len by (rule arith)
  have proc: "processed st' = min (length xs) (Suc k * ?B)"
    unfolding next_i [symmetric] pl [symmetric] by (simp add: st'_def)
  have more: "?i + ?B < length xs \<longleftrightarrow> Suc k < ?n"
    unfolding next_i using batch_index [OF B, of "Suc k" "length xs"] by (simp add: total_batches_def)
  have bo: "batch_of config xs k = batch" by (simp add: batch_of_def batch_def)
  have mn: "min (length xs) ((k + 1) * ?B) = processed st + length batch"
    unfolding pl by (simp add: add.commute)
  have starts: "concat (map printed calls) = batch_starts w config xs k"
    unfolding calls_def printed_calls batch_starts_def bo ..
  have reports: "settle_events calls = batch_reports w config xs k"
    unfolding calls_def settle_events_calls batch_reports_def bo ..
  have c_eq: "console st' = console st @ batch_events w config xs ?n k"
    using B unfolding batch_events_def mn more starts [symmetric] reports [symmetric]
    by (simp add: st'_def more)
  have b2: "drop (Suc k * ?B) xs = drop ?B (drop ?i xs)" by (simp add: add.commute)
  have "batch @ drop (Suc k * ?B) xs = drop ?i xs"
    unfolding b1 b2 by (rule append_take_drop_id)
  then have "map ?g batch @ map ?g (drop (Suc k * ?B) xs) = map ?g (drop ?i xs)"
    by (metis map_append)
  then have r_eq: "results st' @ map ?g (drop (Suc k * ?B) xs) = results st @ map ?g (drop ?i xs)"
    by (simp add: st'_def)
  have range: "[k..<?n] = k # [Suc k..<?n]"
    using klt by (simp add: upt_conv_Cons)
  have e_eq: "console st' @ concat (map (batch_events w config xs ?n) [Suc k..<?n])
              = console st @ concat (map (batch_events w config xs ?n) [k..<?n])"
    unfolding range c_eq by simp
  have "batch_loop w config xs (Suc k * ?B) st' =
      Some (Inr \<lparr>results = results st' @ map ?g (drop (Suc k * ?B) xs),
                 processed = length xs,
                 console = console st' @ concat (map (batch_events w config xs ?n) [Suc k..<?n])\<rparr>)"
    using Suc(1) [OF d le proc] .
  then show ?case
    unfolding step next_i r_eq e_eq .
qed

lemma batch_of_bounds:
  assumes "0 < batchSize config" and "k < total_batches config xs"
  shows "batch_of config xs k \<noteq> [] \<and> length (batch_of config xs k) \<le> batchSize config"
proof -
  have "k * batchSize config < length xs"
    using batch_index [OF assms(1), of k "length xs"] assms(2) by (simp add: total_batches_def)
  then show ?thesis
    using assms(1) by (simp add: batch_of_def slice_batch)
qed

lemma concat_batches_from:
  assumes B: "0 < batchSize config"
  shows "k \<le> total_batches config xs \<Longrightarrow>
    concat (map (batch_of config xs) [k..<total_batches config xs]) = drop (k * batchSize config) xs"
proof (induction "total_batches config xs - k" arbitrary: k)
  case 0
  then have k: "k = total_batches config xs" by simp
  then have "\<not> k * batchSize config < length xs"
    using batch_index [OF B, of k "length xs"] by (simp add: total_batches_def)
  then show ?case using k by simp
next
  case (Suc d)
  let ?B = "batchSize config"
  from Suc(2) have klt: "k < total_batches config xs" by simp
  have range: "[k..<total_batches config xs] = k # [Suc k..<total_batches config xs]"
    using klt by (simp add: upt_conv_Cons)
  have d: "d = total_batches config xs - Suc k" using Suc(2) by simp
  have le: "Suc k \<le> total_batches config xs" using klt by simp
  have b1: "batch_of config xs k = take ?B (drop (k * ?B) xs)"
    by (simp add: batch_of_def slice_batch)
  have b2: "drop (Suc k * ?B) xs = drop ?B (drop (k * ?B) xs)" by (simp add: add.commute)
  have "concat (map (batch_of config xs) [k..<total_batches config xs])
        = batch_of config xs k @ drop (Suc k * ?B) xs"
    unfolding range using Suc(1) [OF d le] by simp
  also have "\<dots> = drop (k * ?B) xs"
    unfolding b1 b2 by (rule append_take_drop_id)
  finally show ?case .
qed

lemma announced_append: "announced (a @ b) = announced a + announced b"
  by (simp add: announced_def)

lemma gathered_append: "gathered (a @ b) = gathered a + gathered b"
  by (simp add: gathered_def)

lemma set_insert_sorted: "set (insert_sorted cmp x ys) = insert x (set ys)"
  by (induction ys) auto

lemma set_js_sort: "set (js_sort cmp xs) = set xs"
  by (induction xs) (simp_all add: js_sort_def set_insert_sorted)

lemma announced_starts: "announced (batch_starts w config xs k) = 0"
proof -
  have "announced (concat (map (\<lambda>entry. if awaits w config entry then [Testing entry]
                            else [Testing entry, last_line w entry]) ys)) = 0" for ys
    by (induction ys) (simp_all add: announced_def last_line_def split: sum.splits)
  then show ?thesis by (simp add: batch_starts_def)
qed

lemma gathered_starts: "gathered (batch_starts w config xs k) = 0"
proof -
  have "gathered (concat (map (\<lambda>entry. if awaits w config entry then [Testing entry]
                            else [Testing entry, last_line w entry]) ys)) = 0" for ys
    by (induction ys) (simp_all add: gathered_def last_line_def split: sum.splits)
  then show ?thesis by (simp add: batch_starts_def)
qed

lemma announced_reports: "announced (batch_reports w config xs k) = 0"
  by (simp add: batch_reports_def announced_def filter_map comp_def)

lemma gathered_reports: "gathered (batch_reports w config xs k) = 0"
  by (simp add: batch_reports_def gathered_def filter_map comp_def)

lemma announced_block: "announced (batch_events w config xs n k) = 1"
proof -
  have "announced [Processing (k + 1) n] = 1"
    and "announced [Complete (k + 1) (min (length xs) ((k + 1) * batchSize config))] = 0"
    and "announced (if k + 1 < n then [Sleep 1000] else []) = 0"
    by (simp_all add: announced_def)
  then show ?thesis
    unfolding batch_events_def announced_append announced_starts announced_reports by simp
qed

lemma gathered_block: "gathered (batch_events w config xs n k) = 1"
proof -
  have "gathered [Processing (k + 1) n] = 0"
    and "gathered [Complete (k + 1) (min (length xs) ((k + 1) * batchSize config))] = 1"
    and "gathered (if k + 1 < n then [Sleep 1000] else []) = 0"
    by (simp_all add: gathered_def)
  then show ?thesis
    unfolding batch_events_def gathered_append gathered_starts gathered_reports by simp
qed

lemma announced_blocks: "announced (concat (map (batch_events w config xs n) ks)) = length ks"
proof (induction ks)
  case Nil
  show ?case by (simp add: announced_def)
next
  case (Cons k ks)
  then show ?case by (simp add: announced_append announced_block)
qed

lemma gathered_blocks: "gathered (concat (map (batch_events w config xs n) ks)) = length ks"
proof (induction ks)
  case Nil
  show ?case by (simp add: gathered_def)
next
  case (Cons k ks)
  then show ?case by (simp add: gathered_append gathered_block)
qed

lemma run_returns:
  assumes "0 < batchSize config"
  shows "runAdvancedPingTest_with w config urls =
    Some (Inr \<lparr>results = js_sort result_order (map (ping_result w config) (uniqueUrls_map urls)),
               processed = length (uniqueUrls_map urls),
               console = concat (map (batch_events w config (uniqueUrls_map urls)
                                       (total_batches config (uniqueUrls_map urls)))
                                  [0..<total_batches config (uniqueUrls_map urls)])\<rparr>)"
proof -
  let ?xs = "uniqueUrls_map urls"
  have "batch_loop w config ?xs (0 * batchSize config) \<lparr>results = [], processed = 0, console = []\<rparr> =
      Some (Inr \<lparr>results = results \<lparr>results = [], processed = 0, console = []\<rparr>
                    @ map (ping_result w config) (drop (0 * batchSize config) ?xs),
                 processed = length ?xs,
                 console = console \<lparr>results = [], processed = 0, console = []\<rparr>
                   @ concat (map (batch_events w config ?xs (total_batches config ?xs))
                               [0..<total_batches config ?xs])\<rparr>)"
    by (rule batch_loop_from [OF assms]) simp_all
  then show ?thesis
    by (simp add: runAdvancedPingTest_with_def)
qed

lemma starts_of_batch: "e \<in> set (batch_of config xs k) \<Longrightarrow> Testing e \<in> set (batch_starts w config xs k)"
  by (auto simp: batch_starts_def)

lemma no_report_in_starts: "awaits w config e \<Longrightarrow> Reported e \<notin> set (batch_starts w config xs k)"
  by (auto simp: batch_starts_def last_line_def split: if_splits sum.splits)

lemma reports_of_batch:
  "set (batch_reports w config xs k) = Reported ` {e \<in> set (batch_of config xs k). awaits w config e}"
  by (auto simp: batch_reports_def set_js_sort)

lemma blocks_split:
  "k < n \<Longrightarrow> concat (map f [0..<n]) = concat (map f [0..<k]) @ f k @ concat (map f [Suc k..<n])"
proof -
  assume k: "k < n"
  have "[0..<n] = [0..<k] @ [k..<n]"
    using k upt_add_eq_append [of 0 k "n - k"] by simp
  also have "[k..<n] = k # [Suc k..<n]"
    using k by (simp add: upt_conv_Cons)
  finally show ?thesis by simp
qed

lemma started_before_reported:
  assumes "k < n" and "e \<in> set (batch_of config xs k)" and "e' \<in> set (batch_of config xs k)"
    and "awaits w config e'"
  shows "\<exists>pre post. concat (map (batch_events w config xs n) [0..<n]) = pre @ Reported e' # post
           \<and> Testing e \<in> set pre"
proof -
  have "Reported e' \<in> set (batch_reports w config xs k)"
    using assms(3,4) by (simp add: reports_of_batch)
  then obtain r1 r2 where r: "batch_reports w config xs k = r1 @ Reported e' # r2"
    by (auto dest: split_list)
  let ?pre = "concat (map (batch_events w config xs n) [0..<k])
              @ [Processing (k + 1) n] @ batch_starts w config xs k @ r1"
  let ?post = "r2 @ [Complete (k + 1) (min (length xs) ((k + 1) * batchSize config))]
               @ (if k + 1 < n then [Sleep 1000] else [])
               @ concat (map (batch_events w config xs n) [Suc k..<n])"
  have "batch_events w config xs n k =
          ([Processing (k + 1) n] @ batch_starts w config xs k @ r1) @ Reported e' #
          (r2 @ [Complete (k + 1) (min (length xs) ((k + 1) * batchSize config))]
               @ (if k + 1 < n then [Sleep 1000] else []))"
    unfolding batch_events_def r by simp
  then have "concat (map (batch_events w config xs n) [0..<n]) = ?pre @ Reported e' # ?post"
    unfolding blocks_split [OF assms(1)] by simp
  moreover have "Testing e \<in> set ?pre"
    using starts_of_batch [OF assms(2), of w] by simp
  ultimately show ?thesis by blast
qed

lemma gathered_before_next:
  assumes "k' < n" and "k < k'" and "e \<in> set (batch_of config xs k')"
  shows "\<exists>pre post. concat (map (batch_events w config xs n) [0..<n]) = pre @ Testing e # post
           \<and> Complete (k + 1) (min (length xs) ((k + 1) * batchSize config)) \<in> set pre"
proof -
  have "Testing e \<in> set (batch_starts w config xs k')"
    using assms(3) by (rule starts_of_batch)
  then obtain s1 s2 where s: "batch_starts w config xs k' = s1 @ Testing e # s2"
    by (auto dest: split_list)
  let ?pre = "concat (map (batch_events w config xs n) [0..<k']) @ [Processing (k' + 1) n] @ s1"
  let ?post = "s2 @ batch_reports w config xs k'
               @ [Complete (k' + 1) (min (length xs) ((k' + 1) * batchSize config))]
               @ (if k' + 1 < n then [Sleep 1000] else [])
               @ concat (map (batch_events w config xs n) [Suc k'..<n])"
  have "batch_events w config xs n k' =
          ([Processing (k' + 1) n] @ s1) @ Testing e #
          (s2 @ batch_reports w config xs k'
               @ [Complete (k' + 1) (min (length xs) ((k' + 1) * batchSize config))]
               @ (if k' + 1 < n then [Sleep 1000] else []))"
    unfolding batch_events_def s by simp
  then have eq: "concat (map (batch_events w config xs n) [0..<n]) = ?pre @ Testing e # ?post"
    unfolding blocks_split [OF assms(1)] by simp
  have "Complete (k + 1) (min (length xs) ((k + 1) * batchSize config))
          \<in> set (batch_events w config xs n k)"
    by (simp add: batch_events_def)
  moreover have "k \<in> set [0..<k']" using assms(2) by simp
  ultimately have "Complete (k + 1) (min (length xs) ((k + 1) * batchSize config))
          \<in> set (concat (map (batch_events w config xs n) [0..<k']))"
    unfolding set_concat by (metis UN_I image_eqI list.set_map)
  then have "Complete (k + 1) (min (length xs) ((k + 1) * batchSize config)) \<in> set ?pre"
    by simp
  with eq show ?thesis by blast
qed

text \<open>
  Claim C5. With a batch size \<open>B > 0\<close> and \<open>N\<close> deduplicated endpoints the run
  ends, and its console is, batch after batch: the announcement of the batch, the lines
  printed by the calls of its probes, the last lines of the probes that had to wait, the
  gathering of the results and, unless the batch is the last, the pause. There are
  \<open>\<lceil>N / B\<rceil>\<close> batches, announced and gathered; each has at least one and at most
  \<open>B\<close> endpoints, and together they are the endpoints in order. The probes of a batch
  run concurrently: every probe of the batch is called, and prints its first line, before
  any probe of the batch that waits for the network prints its last line, and these last
  lines come in the order in which the probes complete, not in the order of the calls.
  Batches run one after the other: the results of a batch are gathered before any probe
  of a later batch is called.
\<close>

theorem batches_issued:
  fixes w :: world and config :: PingConfig and urls :: "UrlEntry list"
  defines "xs \<equiv> uniqueUrls_map urls"
  defines "n \<equiv> total_batches config xs"
  assumes "0 < batchSize config"
  shows "\<exists>st. runAdvancedPingTest_with w config urls = Some (Inr st)
    \<and> console st = concat (map (batch_events w config xs n) [0..<n])
    \<and> announced (console st) = n
    \<and> gathered (console st) = n
    \<and> (\<forall>k < n. batch_of config xs k \<noteq> [] \<and> length (batch_of config xs k) \<le> batchSize config)
    \<and> concat (map (batch_of config xs) [0..<n]) = xs
    \<and> processed st = length xs
    \<and> length (results st) = length xs
    \<and> (\<forall>k. \<forall>e \<in> set (batch_of config xs k). Testing e \<in> set (batch_starts w config xs k))
    \<and> (\<forall>k e. awaits w config e \<longrightarrow> Reported e \<notin> set (batch_starts w config xs k))
    \<and> (\<forall>k. set (batch_reports w config xs k)
              = Reported ` {e \<in> set (batch_of config xs k). awaits w config e})
    \<and> (\<forall>k < n. \<forall>e \<in> set (batch_of config xs k). \<forall>e' \<in> set (batch_of config xs k).
          awaits w config e' \<longrightarrow>
          (\<exists>pre post. console st = pre @ Reported e' # post \<and> Testing e \<in> set pre))
    \<and> (\<forall>k' < n. \<forall>k < k'. \<forall>e \<in> set (batch_of config xs k').
          \<exists>pre post. console st = pre @ Testing e # post
            \<and> Complete (k + 1) (min (length xs) ((k + 1) * batchSize config)) \<in> set pre)"
proof -
  let ?st = "\<lparr>results = js_sort result_order (map (ping_result w config) xs),
              processed = length xs,
              console = concat (map (batch_events w config xs n) [0..<n])\<rparr>"
  have pos: "0 < batchSize config" by fact
  have run: "runAdvancedPingTest_with w config urls = Some (Inr ?st)"
    unfolding xs_def n_def by (rule run_returns [OF pos])
  have con: "console ?st = concat (map (batch_events w config xs n) [0..<n])" by simp
  have ann: "announced (console ?st) = n" by (simp add: announced_blocks)
  have gat: "gathered (console ?st) = n" by (simp add: gathered_blocks)
  have bounds: "\<forall>k < n. batch_of config xs k \<noteq> [] \<and> length (batch_of config xs k) \<le> batchSize config"
    unfolding n_def using batch_of_bounds [OF pos] by blast
  have cover: "concat (map (batch_of config xs) [0..<n]) = xs"
    unfolding n_def using concat_batches_from [OF pos, of 0 xs] by simp
  have pr: "processed ?st = length xs" by simp
  have len: "length (results ?st) = length xs" by (simp add: js_sort_length)
  have s1: "\<forall>k. \<forall>e \<in> set (batch_of config xs k). Testing e \<in> set (batch_starts w config xs k)"
    using starts_of_batch by blast
  have s2: "\<forall>k e. awaits w config e \<longrightarrow> Reported e \<notin> set (batch_starts w config xs k)"
    using no_report_in_starts by blast
  have s3: "\<forall>k. set (batch_reports w config xs k)
              = Reported ` {e \<in> set (batch_of config xs k). awaits w config e}"
    using reports_of_batch by blast
  have o1: "\<forall>k < n. \<forall>e \<in> set (batch_of config xs k). \<forall>e' \<in> set (batch_of config xs k).
          awaits w config e' \<longrightarrow>
          (\<exists>pre post. console ?st = pre @ Reported e' # post \<and> Testing e \<in> set pre)"
    unfolding con using started_before_reported by blast
  have o2: "\<forall>k' < n. \<forall>k < k'. \<forall>e \<in> set (batch_of config xs k').
          \<exists>pre post. console ?st = pre @ Testing e # post
            \<and> Complete (k + 1) (min (length xs) ((k + 1) * batchSize config)) \<in> set pre"
    unfolding con using gathered_before_next by blast
  show ?thesis
    by (rule exI [of _ ?st]) (intro conjI run con ann gat bounds cover pr len s1 s2 s3 o1 o2)
qed

lemma demo_unique: "uniqueUrls_map [entry_a, entry_b, entry_c] = [entry_a, entry_b, entry_c]"
  by (simp add: uniqueUrls_map_def map_values_def new_Map_def entry_a_def entry_b_def entry_c_def)

lemma demo_batch_size: "batchSize demo_config = 2"
  by (simp add: demo_config_def run_config_def)

lemma demo_total_batches: "total_batches demo_config [entry_a, entry_b, entry_c] = 2"
proof -
  have "\<lceil>(3::real) / 2\<rceil> = 2" by (simp add: ceiling_eq_iff)
  then show ?thesis by (simp add: total_batches_def demo_batch_size)
qed

lemma demo_batches:
  "batch_of demo_config [entry_a, entry_b, entry_c] 0 = [entry_a, entry_b]"
  "batch_of demo_config [entry_a, entry_b, entry_c] (Suc 0) = [entry_c]"
  by (simp_all add: batch_of_def slice_def demo_batch_size)

lemma demo_awaits:
  "awaits w_demo demo_config entry_a" "awaits w_demo demo_config entry_b"
  "awaits w_demo demo_config entry_c"
  by (simp_all add: awaits_def demo_host_a demo_host_b demo_host_c demo_config_def run_config_def)

lemma demo_settled:
  "settled_at w_demo (url entry_a) = 40" "settled_at w_demo (url entry_b) = 15"
  "settled_at w_demo (url entry_c) = 5001"
  by (simp_all add: w_demo_def entry_a_def entry_b_def entry_c_def)

lemma demo_block_0:
  "batch_events w_demo demo_config [entry_a, entry_b, entry_c] 2 0 =
     [Processing 1 2, Testing entry_a, Testing entry_b, Reported entry_b, Reported entry_a,
      Complete 1 2, Sleep 1000]"
  by (simp add: batch_events_def batch_starts_def batch_reports_def demo_batches demo_awaits
      js_sort_def demo_settled demo_batch_size)

lemma demo_block_1:
  "batch_events w_demo demo_config [entry_a, entry_b, entry_c] 2 (Suc 0) =
     [Processing 2 2, Testing entry_c, Reported entry_c, Complete 2 3]"
  by (simp add: batch_events_def batch_starts_def batch_reports_def demo_batches demo_awaits
      js_sort_def demo_settled demo_batch_size)

lemma upt2: "[0..<2] = [0, 1]"
  by (simp add: upt_rec)

text \<open>
  Three endpoints in batches of two: two batches, of two endpoints and of one. In the
  first batch A is called before B, both wait, and B, which completes after 15 ms,
  reports before A, which completes after 40 ms. (A dispatcher that awaited each probe
  before calling the next would print the first and the last line of A before the first
  line of B.)
\<close>

theorem batches_issued_witness:
  "0 < batchSize demo_config
   \<and> (\<exists>st. runAdvancedPingTest_with w_demo demo_config [entry_a, entry_b, entry_c] = Some (Inr st)
          \<and> console st =
              [Processing 1 2, Testing entry_a, Testing entry_b, Reported entry_b, Reported entry_a,
               Complete 1 2, Sleep 1000,
               Processing 2 2, Testing entry_c, Reported entry_c, Complete 2 3]
          \<and> announced (console st) = 2 \<and> gathered (console st) = 2
          \<and> batch_of demo_config [entry_a, entry_b, entry_c] 0 = [entry_a, entry_b]
          \<and> batch_of demo_config [entry_a, entry_b, entry_c] 1 = [entry_c]
          \<and> processed st = 3 \<and> length (results st) = 3)"
proof -
  have pos: "0 < batchSize demo_config" by (simp add: demo_batch_size)
  from batches_issued [OF pos, of w_demo "[entry_a, entry_b, entry_c]"] obtain st where
    run: "runAdvancedPingTest_with w_demo demo_config [entry_a, entry_b, entry_c] = Some (Inr st)" and
    con: "console st = concat (map (batch_events w_demo demo_config [entry_a, entry_b, entry_c] 2) [0..<2])" and
    ann: "announced (console st) = 2" and
    gat: "gathered (console st) = 2" and
    pr: "processed st = 3" and
    len: "length (results st) = 3"
    unfolding demo_unique demo_total_batches by auto
  have con': "console st =
              [Processing 1 2, Testing entry_a, Testing entry_b, Reported entry_b, Reported entry_a,
               Complete 1 2, Sleep 1000,
               Processing 2 2, Testing entry_c, Reported entry_c, Complete 2 3]"
    unfolding con upt2 by (simp add: demo_block_0 demo_block_1)
  have b1: "batch_of demo_config [entry_a, entry_b, entry_c] 1 = [entry_c]"
    using demo_batches(2) by simp
  from pos run con' ann gat demo_batches(1) b1 pr len show ?thesis by blast
qed

lemma sorted_insert_sorted:
  assumes total: "\<And>a b. cmp a b \<le> 0 \<or> cmp b a \<le> 0"
    and trans: "\<And>a b c. cmp a b \<le> 0 \<Longrightarrow> cmp b c \<le> 0 \<Longrightarrow> cmp a c \<le> 0"
  shows "sorted_wrt (\<lambda>a b. cmp a b \<le> 0) ys \<Longrightarrow> sorted_wrt (\<lambda>a b. cmp a b \<le> 0) (insert_sorted cmp x ys)"
proof (induction ys)
  case Nil
  show ?case by simp
next
  case (Cons y ys)
  show ?case
  proof (cases "cmp x y \<le> 0")
    case True
    have "\<forall>z \<in> set ys. cmp x z \<le> 0"
    proof
      fix z assume "z \<in> set ys"
      with Cons.prems have "cmp y z \<le> 0" by simp
      with True show "cmp x z \<le> 0" by (rule trans)
    qed
    with True Cons.prems show ?thesis by simp
  next
    case False
    with total [of x y] have yx: "cmp y x \<le> 0" by blast
    from Cons have "sorted_wrt (\<lambda>a b. cmp a b \<le> 0) (insert_sorted cmp x ys)" by simp
    with False yx Cons.prems show ?thesis by (simp add: set_insert_sorted)
  qed
qed

lemma sorted_js_sort:
  assumes total: "\<And>a b. cmp a b \<le> 0 \<or> cmp b a \<le> 0"
    and trans: "\<And>a b c. cmp a b \<le> 0 \<Longrightarrow> cmp b c \<le> 0 \<Longrightarrow> cmp a c \<le> 0"
  shows "sorted_wrt (\<lambda>a b. cmp a b \<le> 0) (js_sort cmp xs)"
proof (induction xs)
  case Nil
  show ?case by (simp add: js_sort_def)
next
  case (Cons x xs)
  have "js_sort cmp (x # xs) = insert_sorted cmp x (js_sort cmp xs)"
    by (simp add: js_sort_def)
  with Cons show ?case
    using sorted_insert_sorted [of cmp "js_sort cmp xs" x] total trans by simp
qed

lemma sorted_by_key:
  "sorted (map f (js_sort (\<lambda>a b. f a - f b) xs))" for f :: "'a \<Rightarrow> real"
proof -
  have "sorted_wrt (\<lambda>a b. f a - f b \<le> 0) (js_sort (\<lambda>a b. f a - f b) xs)"
    by (rule sorted_js_sort) auto
  then have "sorted_wrt (\<lambda>a b. f a \<le> f b) (js_sort (\<lambda>a b. f a - f b) xs)"
    by simp
  then show ?thesis by (simp add: sorted_map)
qed

lemma result_order_total: "result_order a b \<le> 0 \<or> result_order b a \<le> 0"
  by (simp add: result_order_def) linarith

lemma result_order_trans:
  "result_order a b \<le> 0 \<Longrightarrow> result_order b c \<le> 0 \<Longrightarrow> result_order a c \<le> 0"
  by (simp add: result_order_def split: if_splits)

lemma sorted_up_results:
  "sorted (map (\<lambda>r. avg (statistics r))
            (filter (\<lambda>r. res_status r = UP) (js_sort result_order rs)))"
proof -
  have "sorted_wrt (\<lambda>a b. result_order a b \<le> 0) (js_sort result_order rs)"
    by (rule sorted_js_sort) (rule result_order_total, rule result_order_trans)
  then have "sorted_wrt (\<lambda>a b. result_order a b \<le> 0)
               (filter (\<lambda>r. res_status r = UP) (js_sort result_order rs))"
    by (rule sorted_wrt_filter)
  then have "sorted_wrt (\<lambda>a b. avg (statistics a) \<le> avg (statistics b))
               (filter (\<lambda>r. res_status r = UP) (js_sort result_order rs))"
    by (rule sorted_wrt_mono_rel [rotated]) (simp add: result_order_def)
  then show ?thesis by (simp add: sorted_map)
qed

lemma sorted_adjacent:
  "sorted xs \<Longrightarrow> \<forall>i. Suc i < length xs \<longrightarrow> xs ! i \<le> xs ! Suc i" for xs :: "real list"
  by (simp add: sorted_iff_nth_Suc)

text \<open>
  Claim C9. In the summary of \<^verbatim>\<open>fastCheck\<close> the reachable endpoints are listed by
  ascending response time: each entry's time is at most the next entry's. In the
  results that \<^verbatim>\<open>runAdvancedPingTest\<close> writes, the endpoints that are UP are in
  ascending order of their average time.
\<close>

theorem reachable_sorted_by_latency:
  "(\<exists>out. fastCheck w urls = Inr out
      \<and> length (upSites out) = sum_up out
      \<and> sorted (map snd (upSites out))
      \<and> (\<forall>i. Suc i < length (upSites out) \<longrightarrow> snd (upSites out ! i) \<le> snd (upSites out ! Suc i)))
   \<and> (0 < batchSize config \<longrightarrow>
        (\<exists>st. runAdvancedPingTest_with w config urls = Some (Inr st)
           \<and> sorted (map (\<lambda>r. avg (statistics r)) (filter (\<lambda>r. res_status r = UP) (results st)))))"
proof -
  let ?rs = "map (quick_result w) (uniqueUrls_filter urls)"
  let ?out = "simpleOutput w ?rs"
  let ?ups = "js_sort (\<lambda>a b. responseTime a - responseTime b) (filter (\<lambda>r. s_status r = UP) ?rs)"
  have times: "map snd (upSites ?out) = map responseTime ?ups"
    by (simp add: simpleOutput_def Let_def comp_def)
  have srt: "sorted (map snd (upSites ?out))"
    unfolding times by (rule sorted_by_key)
  have len: "length (upSites ?out) = sum_up ?out"
    by (simp add: simpleOutput_def Let_def)
  have adj: "\<forall>i. Suc i < length (upSites ?out) \<longrightarrow> snd (upSites ?out ! i) \<le> snd (upSites ?out ! Suc i)"
    using sorted_adjacent [OF srt] by simp
  have fast: "\<exists>out. fastCheck w urls = Inr out
      \<and> length (upSites out) = sum_up out
      \<and> sorted (map snd (upSites out))
      \<and> (\<forall>i. Suc i < length (upSites out) \<longrightarrow> snd (upSites out ! i) \<le> snd (upSites out ! Suc i))"
    using fastCheck_returns [of w urls] len srt adj by blast
  have adv: "0 < batchSize config \<longrightarrow>
        (\<exists>st. runAdvancedPingTest_with w config urls = Some (Inr st)
           \<and> sorted (map (\<lambda>r. avg (statistics r)) (filter (\<lambda>r. res_status r = UP) (results st))))"
  proof
    assume pos: "0 < batchSize config"
    show "\<exists>st. runAdvancedPingTest_with w config urls = Some (Inr st)
           \<and> sorted (map (\<lambda>r. avg (statistics r)) (filter (\<lambda>r. res_status r = UP) (results st)))"
      unfolding run_returns [OF pos] by (simp add: sorted_up_results)
  qed
  from fast adv show ?thesis by blast
qed

lemma demo_filter_unique: "uniqueUrls_filter [entry_a, entry_b, entry_c] = [entry_a, entry_b, entry_c]"
  by (simp add: uniqueUrls_filter_def entry_a_def entry_b_def entry_c_def)

lemma demo_quick_a:
  "quick_result w_demo entry_a =
     \<lparr>s_url = ''http://a.example'', s_name = ''A'', s_status = UP, responseTime = 40\<rparr>"
  by (simp add: quick_result_def extractHostname_def w_demo_def entry_a_def)

lemma demo_quick_b:
  "quick_result w_demo entry_b =
     \<lparr>s_url = ''https://b.example:8443/tv'', s_name = ''B'', s_status = UP, responseTime = 15\<rparr>"
  by (simp add: quick_result_def extractHostname_def w_demo_def entry_b_def)

lemma demo_quick_c:
  "quick_result w_demo entry_c =
     \<lparr>s_url = ''http://c.example'', s_name = ''C'', s_status = DOWN, responseTime = 5001\<rparr>"
  by (simp add: quick_result_def extractHostname_def w_demo_def entry_c_def)

lemma demo_upSites:
  "upSites (simpleOutput w_demo (map (quick_result w_demo) [entry_a, entry_b, entry_c]))
   = [(''https://b.example:8443/tv'', 15), (''http://a.example'', 40)]"
  by (simp add: simpleOutput_def Let_def js_sort_def demo_quick_a demo_quick_b demo_quick_c)

text \<open>
  Of three endpoints, A answers after 40 ms, B after 15 ms and C not at all: the summary
  lists B, then A.
\<close>

theorem reachable_sorted_by_latency_witness:
  "0 < batchSize demo_config
   \<and> (\<exists>out. fastCheck w_demo [entry_a, entry_b, entry_c] = Inr out
        \<and> upSites out = [(''https://b.example:8443/tv'', 15), (''http://a.example'', 40)]
        \<and> Suc 0 < length (upSites out)
        \<and> snd (upSites out ! 0) \<le> snd (upSites out ! Suc 0))
   \<and> (\<exists>st. runAdvancedPingTest_with w_demo demo_config [entry_a, entry_b, entry_c] = Some (Inr st)
        \<and> sorted (map (\<lambda>r. avg (statistics r)) (filter (\<lambda>r. res_status r = UP) (results st))))"
proof -
  have pos: "0 < batchSize demo_config" by (simp add: demo_batch_size)
  note inst = reachable_sorted_by_latency [of w_demo "[entry_a, entry_b, entry_c]" demo_config]
  from inst obtain out where
    out: "fastCheck w_demo [entry_a, entry_b, entry_c] = Inr out" and
    adj: "\<forall>i. Suc i < length (upSites out) \<longrightarrow> snd (upSites out ! i) \<le> snd (upSites out ! Suc i)"
    by blast
  have "out = simpleOutput w_demo (map (quick_result w_demo) [entry_a, entry_b, entry_c])"
    using out fastCheck_returns [of w_demo "[entry_a, entry_b, entry_c]"]
    by (simp add: demo_filter_unique)
  then have ups: "upSites out = [(''https://b.example:8443/tv'', 15), (''http://a.example'', 40)]"
    by (simp only: demo_upSites)
  then have l: "Suc 0 < length (upSites out)" by simp
  with adj have le: "snd (upSites out ! 0) \<le> snd (upSites out ! Suc 0)" by blast
  from inst pos have "\<exists>st. runAdvancedPingTest_with w_demo demo_config [entry_a, entry_b, entry_c] = Some (Inr st)
        \<and> sorted (map (\<lambda>r. avg (statistics r)) (filter (\<lambda>r. res_status r = UP) (results st)))"
    by blast
  with pos out ups l le show ?thesis by blast
qed

section \<open>Failures and malformed addresses\<close>

lemma advancedPingUrl_failed:
  assumes "extractHostAndPort w (url entry) = Inl msg"
  shows "advancedPingUrl_try w entry config = Inl msg"
    and "advancedPingUrl w entry config =
      Inr \<lparr>res_url = url entry, res_name = name entry, res_type = type entry,
           res_status = DOWN, res_attempts = attempts config, successfulPings = 0,
           statistics = \<lparr>stat_min = 0, stat_max = 0, avg = 0, stddev = 0, loss = Num 100\<rparr>,
           dnsInfo = \<lparr>ip = None, dns_hostname = url entry, resolveTime = 0, dns_error = None\<rparr>,
           port = None, isHttps = False,
           totalTime = elapsed w (url entry), timestamp = now_iso w,
           error = Some msg, rawPingResults = []\<rparr>"
  using assms by (simp_all add: advancedPingUrl_def advancedPingUrl_try_def)


lemma extract_fallback:
  assumes "new_URL w s = Inl e"
  shows "extractHostAndPort w s =
    (case fallback_match s of
       Some (host, port_group) \<Rightarrow>
         Inr \<lparr>hp_hostname = host,
              hp_port = Some (case port_group of Some ds \<Rightarrow> parseInt ds
                              | None \<Rightarrow> if take 5 s = ''https'' then 443 else 80),
              hp_isHttps = (take 5 s = ''https'')\<rparr>
     | None \<Rightarrow> Inl ''Invalid URL format'')"
  using assms by (simp add: extractHostAndPort_def)


lemma raw_of_thrown:
  "probe w h (timeout c / 1000) i = Inl e \<Longrightarrow>
     raw_of w h c i = \<lparr>alive = False, time = timeout c, attempt = i + 1\<rparr>"
  by (simp add: raw_of_def)



lemma demo_local_unparsed: "new_URL w_demo (url entry_local) = Inl ''Invalid URL''"
  by (simp add: w_demo_def entry_local_def)

lemma demo_local_no_match: "match_scheme_host (url entry_local) = None"
  by (simp add: match_scheme_host_def entry_local_def)

lemma demo_local_no_fallback: "fallback_match (url entry_local) = None"
  by (simp add: fallback_match_def demo_local_no_match)

lemma demo_x_unparsed: "new_URL w_demo (url entry_x) = Inl ''Invalid URL''"
  by (simp add: w_demo_def entry_x_def)

lemma demo_x_fallback: "fallback_match (url entry_x) = Some (''exa mple.com'', Some ''8080'')"
  by (simp add: fallback_match_def match_scheme_host_def entry_x_def is_digit_def)


text \<open>
  Claim C3, for the single-attempt probers. The address \<^verbatim>\<open>localhost\<close> is not a URL
  and the fallback expression does not match it; \<^verbatim>\<open>checkUrl\<close> and \<^verbatim>\<open>quickPing\<close> then
  probe the address itself as the host, the host answers, and the endpoint is reported
  reachable, without any error.
\<close>

theorem unparseable_address_reported_up:
  "new_URL w_demo (url entry_local) = Inl ''Invalid URL''
   \<and> match_scheme_host (url entry_local) = None
   \<and> checkUrl w_demo entry_local = Inr \<lparr>c_url = ''localhost'', c_name = ''local'', isUp = True\<rparr>
   \<and> quickPing w_demo entry_local =
       Inr \<lparr>s_url = ''localhost'', s_name = ''local'', s_status = UP, responseTime = 5001\<rparr>"
  by (simp add: demo_local_unparsed demo_local_no_match checkUrl_def quickPing_def
      extractHostname_def)
     (simp add: w_demo_def entry_local_def)

text \<open>
  Claim C3, as the code has it. For an address that is not a URL the host is the first
  group of the fallback expression. When the expression does not match either, the
  multi-attempt prober returns DOWN with the error \<^verbatim>\<open>Invalid URL format\<close> and makes no
  attempt, whereas the single-attempt probers take the address itself as the host and
  report what its probe says. No run is aborted.
\<close>

theorem malformed_address_handling:
  assumes "new_URL w (url entry) = Inl e"
  shows "(\<forall>host port_group. fallback_match (url entry) = Some (host, port_group) \<longrightarrow>
            (\<exists>hp. extractHostAndPort w (url entry) = Inr hp \<and> hp_hostname hp = host))
    \<and> (fallback_match (url entry) = None \<longrightarrow>
          (\<exists>r. advancedPingUrl w entry config = Inr r \<and> res_status r = DOWN
             \<and> error r = Some ''Invalid URL format''
             \<and> successfulPings r = 0 \<and> rawPingResults r = []))
    \<and> (\<forall>host rest. match_scheme_host (url entry) = Some (host, rest) \<longrightarrow>
          extractHostname w (url entry) = host)
    \<and> (match_scheme_host (url entry) = None \<longrightarrow>
          extractHostname w (url entry) = url entry
          \<and> checkUrl w entry =
              Inr \<lparr>c_url = url entry, c_name = name entry,
                   isUp = (case probe w (url entry) 2 0 of
                             Inr result \<Rightarrow> resp_alive result | Inl _ \<Rightarrow> False)\<rparr>
          \<and> quickPing w entry =
              Inr \<lparr>s_url = url entry, s_name = name entry,
                   s_status = (case probe w (url entry) 2 0 of
                                 Inr result \<Rightarrow> if resp_alive result then UP else DOWN
                               | Inl _ \<Rightarrow> DOWN),
                   responseTime = elapsed w (url entry)\<rparr>)
    \<and> (0 < batchSize config \<longrightarrow> (\<exists>st. runAdvancedPingTest_with w config urls = Some (Inr st)))
    \<and> (\<exists>out. fastCheck w urls = Inr out)
    \<and> (\<exists>out. listUpUrls w urls = Inr out)"
proof -
  have matched: "\<forall>host port_group. fallback_match (url entry) = Some (host, port_group) \<longrightarrow>
            (\<exists>hp. extractHostAndPort w (url entry) = Inr hp \<and> hp_hostname hp = host)"
    by (simp add: extract_fallback [OF assms])
  have unmatched: "fallback_match (url entry) = None \<longrightarrow>
          (\<exists>r. advancedPingUrl w entry config = Inr r \<and> res_status r = DOWN
             \<and> error r = Some ''Invalid URL format''
             \<and> successfulPings r = 0 \<and> rawPingResults r = [])"
  proof
    assume "fallback_match (url entry) = None"
    then have "extractHostAndPort w (url entry) = Inl ''Invalid URL format''"
      by (simp add: extract_fallback [OF assms])
    from advancedPingUrl_failed(2) [OF this, of config] show
      "\<exists>r. advancedPingUrl w entry config = Inr r \<and> res_status r = DOWN
             \<and> error r = Some ''Invalid URL format''
             \<and> successfulPings r = 0 \<and> rawPingResults r = []"
      by simp
  qed
  have host: "\<forall>host rest. match_scheme_host (url entry) = Some (host, rest) \<longrightarrow>
          extractHostname w (url entry) = host"
    by (simp add: extractHostname_def assms)
  have raw: "match_scheme_host (url entry) = None \<longrightarrow>
          extractHostname w (url entry) = url entry
          \<and> checkUrl w entry =
              Inr \<lparr>c_url = url entry, c_name = name entry,
                   isUp = (case probe w (url entry) 2 0 of
                             Inr result \<Rightarrow> resp_alive result | Inl _ \<Rightarrow> False)\<rparr>
          \<and> quickPing w entry =
              Inr \<lparr>s_url = url entry, s_name = name entry,
                   s_status = (case probe w (url entry) 2 0 of
                                 Inr result \<Rightarrow> if resp_alive result then UP else DOWN
                               | Inl _ \<Rightarrow> DOWN),
                   responseTime = elapsed w (url entry)\<rparr>"
    by (simp add: extractHostname_def assms checkUrl_returns check_result_def
        quickPing_returns quick_result_def)
  have run: "0 < batchSize config \<longrightarrow> (\<exists>st. runAdvancedPingTest_with w config urls = Some (Inr st))"
    by (simp add: run_returns)
  have fast: "\<exists>out. fastCheck w urls = Inr out"
    by (simp add: fastCheck_returns)
  have lst: "\<exists>out. listUpUrls w urls = Inr out"
    by (simp add: listUpUrls_returns)
  from matched unmatched host raw run fast lst show ?thesis by (intro conjI)
qed

text \<open>
  An address with a space in its host, which the fallback expression matches, and a
  bare host name, which it does not.
\<close>

theorem malformed_address_handling_witness:
  "new_URL w_demo (url entry_x) = Inl ''Invalid URL''
   \<and> fallback_match (url entry_x) = Some (''exa mple.com'', Some ''8080'')
   \<and> (\<exists>hp. extractHostAndPort w_demo (url entry_x) = Inr hp \<and> hp_hostname hp = ''exa mple.com'')
   \<and> new_URL w_demo (url entry_local) = Inl ''Invalid URL''
   \<and> fallback_match (url entry_local) = None
   \<and> (\<exists>r. advancedPingUrl w_demo entry_local run_config = Inr r \<and> res_status r = DOWN
          \<and> error r = Some ''Invalid URL format'')
   \<and> 0 < batchSize run_config
   \<and> (\<exists>st. runAdvancedPingTest_with w_demo run_config [entry_local, entry_x] = Some (Inr st))"
proof -
  note x = malformed_address_handling [OF demo_x_unparsed, of run_config "[entry_local, entry_x]"]
  note l = malformed_address_handling [OF demo_local_unparsed, of run_config "[entry_local, entry_x]"]
  have pos: "0 < batchSize run_config" by (simp add: run_config_def)
  from x demo_x_fallback
  have a: "\<exists>hp. extractHostAndPort w_demo (url entry_x) = Inr hp \<and> hp_hostname hp = ''exa mple.com''"
    by blast
  from l demo_local_no_fallback
  have b: "\<exists>r. advancedPingUrl w_demo entry_local run_config = Inr r \<and> res_status r = DOWN
          \<and> error r = Some ''Invalid URL format''"
    by blast
  from l pos
  have c: "\<exists>st. runAdvancedPingTest_with w_demo run_config [entry_local, entry_x] = Some (Inr st)"
    by blast
  from demo_x_unparsed demo_x_fallback a demo_local_unparsed demo_local_no_fallback b pos c
  show ?thesis by (intro conjI)
qed












end
